theory Spec2Isabelle
  imports Main
begin

unbundle bit_operations_syntax

section \<open>Hardware boundary\<close>

text \<open>
  The scripts talk to three MicroPython devices: an I2C bus (\<open>i2c.writeto\<close>), a PWM
  channel (\<open>pwm.freq\<close>, \<open>pwm.duty_u16\<close>) and the clock (\<open>time.sleep_ms\<close>,
  \<open>time.sleep_us\<close>). Each call is recorded, in program order, in a trace. A call may
  raise: \<open>faults\<close> lists, for each exception still to come, how many device calls
  succeed before it and which exception the next call raises.
\<close>

datatype exn = OSError | ValueError | IndexError | KeyboardInterrupt

datatype event =
    I2cWrite int int
  | SleepMs int
  | SleepUs int
  | PwmFreq int
  | PwmDuty int
  | Print string

record hw =
  trace :: "event list"
  duty :: int
  pfreq :: int
  volume :: int
  faults :: "(nat \<times> exn) list"

type_synonym 'a io = "hw \<Rightarrow> (exn + 'a) \<times> hw"

definition prim :: "event \<Rightarrow> unit io" where
  "prim ev h =
     (case faults h of
        [] \<Rightarrow> (Inr (), h\<lparr>trace := trace h @ [ev]\<rparr>)
      | (k, e) # fs \<Rightarrow>
          if k = 0 then (Inl e, h\<lparr>faults := fs\<rparr>)
          else (Inr (), h\<lparr>trace := trace h @ [ev], faults := (k - 1, e) # fs\<rparr>))"

definition skip :: "unit io" where
  "skip h = (Inr (), h)"

definition raise :: "exn \<Rightarrow> unit io" where
  "raise e h = (Inl e, h)"

text \<open>Statements in sequence: the first exception ends the block.\<close>

fun seq_io :: "unit io list \<Rightarrow> unit io" where
  "seq_io [] h = (Inr (), h)"
| "seq_io (m # ms) h =
     (case m h of
        (Inl e, h') \<Rightarrow> (Inl e, h')
      | (Inr _, h') \<Rightarrow> seq_io ms h')"

definition print :: "string \<Rightarrow> unit io" where
  "print s h = (Inr (), h\<lparr>trace := trace h @ [Print s]\<rparr>)"

definition sleep_ms :: "int \<Rightarrow> unit io" where
  "sleep_ms ms = prim (SleepMs ms)"

definition sleep_us :: "int \<Rightarrow> unit io" where
  "sleep_us us = prim (SleepUs us)"

text \<open>
  \<open>except Exception\<close> catches every exception of the model but
  \<open>KeyboardInterrupt\<close>, which derives from \<open>BaseException\<close>.
\<close>

definition is_Exception :: "exn \<Rightarrow> bool" where
  "is_Exception e = (e \<noteq> KeyboardInterrupt)"

definition exn_name :: "exn \<Rightarrow> string" where
  "exn_name e =
     (case e of OSError \<Rightarrow> ''OSError'' | ValueError \<Rightarrow> ''ValueError''
      | IndexError \<Rightarrow> ''IndexError'' | KeyboardInterrupt \<Rightarrow> ''KeyboardInterrupt'')"

section \<open>User configuration of main.py\<close>

definition TEAM_NAMES :: "string list" where
  "TEAM_NAMES = [''Team 1'', ''Team 2'', ''Team 3'', ''Team 4'', ''Team 5'', ''Team 6'']"

definition BTN_PINS :: "int list" where
  "BTN_PINS = [16, 17, 19, 20, 21, 22]"

definition LED_PINS :: "int list" where
  "LED_PINS = [6, 7, 8, 9, 10, 11]"

definition DEBOUNCE_MS :: int where "DEBOUNCE_MS = 80"
definition TIMEOUT_S :: int where "TIMEOUT_S = 8"
definition RESET_COOLDOWN_MS :: int where "RESET_COOLDOWN_MS = 400"
definition LCD_ADDR :: int where "LCD_ADDR = 0x27"
definition LCD_COLS :: int where "LCD_COLS = 16"
definition LCD_ROWS :: int where "LCD_ROWS = 2"
definition VOLUME_DUTY :: int where "VOLUME_DUTY = 32768"
definition LED_ACTIVE_HIGH :: bool where "LED_ACTIVE_HIGH = True"

section \<open>I2cLcd: HD44780 behind a PCF8574\<close>

definition MASK_RS :: int where "MASK_RS = 0x01"
definition MASK_RW :: int where "MASK_RW = 0x02"
definition MASK_E :: int where "MASK_E = 0x04"
definition MASK_BL :: int where "MASK_BL = 0x08"

record i2c_lcd =
  addr :: int
  cols :: int
  rows :: int
  bl :: int

text \<open>\<open>bytes([v])\<close> raises ValueError unless \<open>0 <= v < 256\<close>.\<close>

definition write_byte :: "i2c_lcd \<Rightarrow> int \<Rightarrow> unit io" where
  "write_byte l val =
     (let b = val OR bl l
      in if 0 \<le> b \<and> b < 256 then prim (I2cWrite (addr l) b) else raise ValueError)"

definition pulse_e :: "i2c_lcd \<Rightarrow> int \<Rightarrow> unit io" where
  "pulse_e l data =
     seq_io [write_byte l (data OR MASK_E), sleep_us 1,
             write_byte l (data AND NOT MASK_E), sleep_us 50]"

definition send_nibble :: "i2c_lcd \<Rightarrow> int \<Rightarrow> bool \<Rightarrow> unit io" where
  "send_nibble l nibble rs =
     (let data = push_bit 4 nibble AND 0xF0;
          data = (if rs then data OR MASK_RS else data)
      in pulse_e l data)"

definition send_byte :: "i2c_lcd \<Rightarrow> int \<Rightarrow> bool \<Rightarrow> unit io" where
  "send_byte l val rs =
     seq_io [send_nibble l (drop_bit 4 val) rs, send_nibble l (val AND 0x0F) rs]"

definition command :: "i2c_lcd \<Rightarrow> int \<Rightarrow> unit io" where
  "command l cmd =
     seq_io [send_byte l cmd False,
             if cmd = 0x01 \<or> cmd = 0x02 then sleep_ms 2 else skip]"

definition write_char :: "i2c_lcd \<Rightarrow> int \<Rightarrow> unit io" where
  "write_char l ch = send_byte l ch True"

definition lcd_write :: "i2c_lcd \<Rightarrow> string \<Rightarrow> unit io" where
  "lcd_write l s = seq_io (map (\<lambda>c. write_char l (of_char c)) s)"

definition clear :: "i2c_lcd \<Rightarrow> unit io" where
  "clear l = command l 0x01"

definition home :: "i2c_lcd \<Rightarrow> unit io" where
  "home l = command l 0x02"

text \<open>\<open>row_offsets[row]\<close> raises IndexError beyond the four entries.\<close>

definition set_cursor :: "i2c_lcd \<Rightarrow> int \<Rightarrow> nat \<Rightarrow> unit io" where
  "set_cursor l col row =
     (let row_offsets = [0x00, 0x40, 0x00 + cols l, 0x40 + cols l]
      in if row < length row_offsets
         then command l (0x80 OR (row_offsets ! row + col))
         else raise IndexError)"

text \<open>The constructor \<open>I2cLcd.__init__\<close>: the object exists only if no call raised.\<close>

definition I2cLcd_init :: "int \<Rightarrow> int \<Rightarrow> int \<Rightarrow> i2c_lcd io" where
  "I2cLcd_init a c r h =
     (let l = \<lparr>addr = a, cols = c, rows = r, bl = MASK_BL\<rparr>
      in case seq_io
           [write_byte l 0, sleep_ms 50,
            send_nibble l 0x03 False, sleep_ms 5,
            send_nibble l 0x03 False, sleep_us 150,
            send_nibble l 0x03 False, send_nibble l 0x02 False,
            command l 0x28,
            command l 0x08,
            command l 0x01,
            sleep_ms 2,
            command l 0x06,
            command l 0x0C] h of
           (Inl e, h') \<Rightarrow> (Inl e, h')
         | (Inr _, h') \<Rightarrow> (Inr l, h'))"

section \<open>Helper UI\<close>

text \<open>
  Python's \<open>text[:width]\<close>: a negative bound counts from the end of the string.
\<close>

definition slice_to :: "string \<Rightarrow> int \<Rightarrow> string" where
  "slice_to text w =
     (if 0 \<le> w then take (nat w) text else take (nat (int (length text) + w)) text)"

definition center :: "string \<Rightarrow> int \<Rightarrow> string" where
  "center text width =
     (if int (length text) \<ge> width then slice_to text width
      else let pad = (width - int (length text)) div 2
           in replicate (nat pad) CHR '' '' @ text
              @ replicate (nat (width - int (length text) - pad)) CHR '' '')"

definition lcd_ready :: "i2c_lcd \<Rightarrow> unit io" where
  "lcd_ready l =
     seq_io [clear l,
             set_cursor l 0 0, lcd_write l (center ''READY'' LCD_COLS),
             set_cursor l 0 1, lcd_write l (center ''Press a button'' LCD_COLS)]"

definition lcd_winner :: "i2c_lcd \<Rightarrow> string \<Rightarrow> unit io" where
  "lcd_winner l name =
     seq_io [clear l,
             set_cursor l 0 0, lcd_write l (center (name @ '' WINS!'') LCD_COLS),
             set_cursor l 0 1, lcd_write l (center ''Wait/Reset to play'' LCD_COLS)]"

section \<open>Buzzer\<close>

definition C5 :: int where "C5 = 523"
definition D5 :: int where "D5 = 587"
definition E5 :: int where "E5 = 659"
definition F5 :: int where "F5 = 698"
definition G5 :: int where "G5 = 784"
definition A5 :: int where "A5 = 880"
definition B5 :: int where "B5 = 988"
definition C6 :: int where "C6 = 1047"
definition D6 :: int where "D6 = 1175"
definition E6 :: int where "E6 = 1319"
definition F6 :: int where "F6 = 1397"

definition pwm_freq :: "int \<Rightarrow> unit io" where
  "pwm_freq f h =
     (case prim (PwmFreq f) h of
        (Inl e, h') \<Rightarrow> (Inl e, h')
      | (Inr _, h') \<Rightarrow> (Inr (), h'\<lparr>pfreq := f\<rparr>))"

definition pwm_duty_u16 :: "int \<Rightarrow> unit io" where
  "pwm_duty_u16 d h =
     (case prim (PwmDuty d) h of
        (Inl e, h') \<Rightarrow> (Inl e, h')
      | (Inr _, h') \<Rightarrow> (Inr (), h'\<lparr>duty := d\<rparr>))"

text \<open>\<open>Buzzer.__init__\<close>: silence the output, then clamp the volume.\<close>

definition Buzzer_init :: "int \<Rightarrow> unit io" where
  "Buzzer_init vol h =
     (case pwm_duty_u16 0 h of
        (Inl e, h') \<Rightarrow> (Inl e, h')
      | (Inr _, h') \<Rightarrow> (Inr (), h'\<lparr>volume := max 0 (min 65535 vol)\<rparr>))"

definition silence :: "int \<Rightarrow> unit io" where
  "silence ms = seq_io [pwm_duty_u16 0, sleep_ms ms]"

definition tone :: "int \<Rightarrow> int \<Rightarrow> unit io" where
  "tone freq ms h =
     (if freq \<le> 0 then silence ms h
      else seq_io [pwm_freq freq, pwm_duty_u16 (volume h), sleep_ms ms, pwm_duty_u16 0] h)"

fun play :: "(int \<times> int \<times> int) list \<Rightarrow> unit io" where
  "play [] h = (Inr (), h)"
| "play ((f, d, g) # rest) h =
     (case seq_io [tone f d, if g \<noteq> 0 then silence g else skip] h of
        (Inl e, h') \<Rightarrow> (Inl e, h')
      | (Inr _, h') \<Rightarrow> play rest h')"

definition START_CHIME :: "(int \<times> int \<times> int) list" where
  "START_CHIME = [(C5, 90, 10), (E5, 90, 10), (G5, 120, 0)]"

definition MELODIES :: "(int \<times> int \<times> int) list list" where
  "MELODIES =
     [[(E5, 120, 15), (G5, 120, 15), (C6, 160, 0)],
      [(C6, 120, 15), (G5, 120, 15), (E5, 160, 0)],
      [(D5, 100, 10), (F5, 100, 10), (A5, 140, 0)],
      [(F5, 100, 10), (A5, 100, 10), (D6, 140, 0)],
      [(G5, 100, 10), (B5, 100, 10), (E6, 140, 0)],
      [(A5, 100, 10), (C6, 100, 10), (F6, 140, 0)]]"

section \<open>Clock\<close>

text \<open>
  \<open>time.ticks_ms()\<close> counts milliseconds modulo \<open>TICKS_PERIOD\<close>; the readings a
  handler takes are its arguments. \<open>time.ticks_diff\<close> is MicroPython's signed
  difference on that ring.
\<close>

definition TICKS_PERIOD :: int where "TICKS_PERIOD = 2 ^ 30"

definition ticks_diff :: "int \<Rightarrow> int \<Rightarrow> int" where
  "ticks_diff t1 t2 =
     ((t1 - t2 + TICKS_PERIOD div 2) mod TICKS_PERIOD) - TICKS_PERIOD div 2"

section \<open>BuzzerGame\<close>

record game =
  lcd :: i2c_lcd
  leds :: "int list"
  round_open :: bool
  winner_idx :: "nat option"
  win_ts :: int
  last_edge :: "int list"
  last_r :: int
  reset_requested :: bool
  last_reset_handled :: int

text \<open>\<open>pin_obj.value(v)\<close> replaces the level of the pin.\<close>

definition led_on :: "int \<Rightarrow> int" where
  "led_on pin_obj = (if LED_ACTIVE_HIGH then 1 else 0)"

definition led_off :: "int \<Rightarrow> int" where
  "led_off pin_obj = (if LED_ACTIVE_HIGH then 0 else 1)"

definition leds_all_off :: "game \<Rightarrow> game" where
  "leds_all_off g = g\<lparr>leds := map led_off (leds g)\<rparr>"

text \<open>The logical state of an output: the level \<open>_led_on\<close> writes.\<close>

definition is_lit :: "int \<Rightarrow> bool" where
  "is_lit level = (level = (if LED_ACTIVE_HIGH then 1 else 0))"

text \<open>\<open>str(n)\<close> for the fallback name \<open>f"Team {idx+1}"\<close>.\<close>

fun str_nat :: "nat \<Rightarrow> string" where
  "str_nat n =
     (if n < 10 then [char_of (48 + n)]
      else str_nat (n div 10) @ [char_of (48 + n mod 10)])"

declare str_nat.simps [simp del]

definition play_start_chime :: "unit io" where
  "play_start_chime h =
     (case play START_CHIME h of
        (Inl e, h') \<Rightarrow>
          if is_Exception e then print (''Start chime error: '' @ exn_name e) h'
          else (Inl e, h')
      | (Inr _, h') \<Rightarrow> (Inr (), h'))"

text \<open>
  The two conditional expressions of \<open>_declare_winner\<close>: the configured name and
  melody of a team, with the fallbacks for an index beyond the tables.
\<close>

definition team_name :: "nat \<Rightarrow> string" where
  "team_name idx =
     (if idx < length TEAM_NAMES then TEAM_NAMES ! idx else ''Team '' @ str_nat (idx + 1))"

definition team_melody :: "nat \<Rightarrow> (int \<times> int \<times> int) list" where
  "team_melody idx = (if idx < length MELODIES then MELODIES ! idx else [(C6, 150, 0)])"

definition declare_winner :: "nat \<Rightarrow> int \<Rightarrow> game \<Rightarrow> hw \<Rightarrow> (exn + unit) \<times> game \<times> hw" where
  "declare_winner idx now g h =
     (let g = g\<lparr>round_open := False, winner_idx := Some idx, win_ts := now\<rparr>;
          g = g\<lparr>leds := map (\<lambda>(i, led). if i = idx then led_on led else led_off led)
                            (enumerate 0 (leds g))\<rparr>;
          name = team_name idx
      in case seq_io [lcd_winner (lcd g) name, print (''WIN: '' @ name)] h of
           (Inl e, h') \<Rightarrow> (Inl e, g, h')
         | (Inr _, h') \<Rightarrow>
             (case play (team_melody idx) h' of
                (Inl e, h'') \<Rightarrow>
                  if is_Exception e
                  then (Inr (), g, snd (print (''Buzzer error: '' @ exn_name e) h''))
                  else (Inl e, g, h'')
              | (Inr _, h'') \<Rightarrow> (Inr (), g, h'')))"

text \<open>
  The guard of the edge handlers: the edge is dropped when it comes less than
  \<open>DEBOUNCE_MS\<close> after the stored timestamp.
\<close>

definition bounce :: "int \<Rightarrow> int \<Rightarrow> bool" where
  "bounce now prev = (ticks_diff now prev < DEBOUNCE_MS)"

text \<open>
  \<open>_irq_btn(idx)\<close>; \<open>now\<close> is the handler's clock reading and \<open>now'\<close> the one
  \<open>_declare_winner\<close> takes. \<open>self.last_edge[idx]\<close> raises IndexError out of range.
\<close>

definition irq_btn :: "nat \<Rightarrow> int \<Rightarrow> int \<Rightarrow> game \<Rightarrow> hw \<Rightarrow> (exn + unit) \<times> game \<times> hw" where
  "irq_btn idx now now' g h =
     (if idx \<ge> length (last_edge g) then (Inl IndexError, g, h)
      else if bounce now (last_edge g ! idx) then (Inr (), g, h)
      else let g = g\<lparr>last_edge := (last_edge g)[idx := now]\<rparr>
           in if round_open g then declare_winner idx now' g h else (Inr (), g, h))"

definition irq_r :: "int \<Rightarrow> game \<Rightarrow> game" where
  "irq_r now g =
     (if bounce now (last_r g) then g
      else g\<lparr>last_r := now, reset_requested := True\<rparr>)"

definition RESET_MSG :: string where
  "RESET_MSG = ''RESET '' @ [char_of (0xE2 :: nat), char_of (0x86 :: nat), char_of (0x92 :: nat)]
                 @ '' READY''"

definition reset_round :: "game \<Rightarrow> hw \<Rightarrow> (exn + unit) \<times> game \<times> hw" where
  "reset_round g h =
     (let g = g\<lparr>round_open := True, winner_idx := None\<rparr>;
          g = leds_all_off g
      in case seq_io [lcd_ready (lcd g), print RESET_MSG, play_start_chime] h of
           (r, h') \<Rightarrow> (r, g, h'))"

text \<open>
  \<open>while self.btnR.value() == 0: time.sleep_ms(5)\<close>. \<open>btnR k\<close> is the level the
  \<open>k\<close>-th read returns; a button that is never released keeps the loop running, which
  is the value \<open>None\<close>.
\<close>

partial_function (option) wait_release :: "(nat \<Rightarrow> int) \<Rightarrow> nat \<Rightarrow> hw \<Rightarrow> ((exn + unit) \<times> hw) option" where
  "wait_release btnR k h =
     (if btnR k = 0
      then (case sleep_ms 5 h of
              (Inl e, h') \<Rightarrow> Some (Inl e, h')
            | (Inr _, h') \<Rightarrow> wait_release btnR (Suc k) h')
      else Some (Inr (), h))"

text \<open>The two blocks of one pass through the body of \<open>loop\<close>.\<close>

definition handle_reset :: "int \<Rightarrow> (nat \<Rightarrow> int) \<Rightarrow> game \<Rightarrow> hw \<Rightarrow> ((exn + unit) \<times> game \<times> hw) option" where
  "handle_reset now btnR g h =
     (if reset_requested g then
        if ticks_diff now (last_reset_handled g) \<ge> RESET_COOLDOWN_MS then
          (case wait_release btnR 0 h of
             None \<Rightarrow> None
           | Some (Inl e, h') \<Rightarrow> Some (Inl e, g, h')
           | Some (Inr _, h') \<Rightarrow>
               Some (reset_round (g\<lparr>last_reset_handled := now, reset_requested := False\<rparr>) h'))
        else Some (Inr (), g, h)
      else Some (Inr (), g, h))"

definition timeout_due :: "int \<Rightarrow> game \<Rightarrow> bool" where
  "timeout_due now g =
     ((\<not> round_open g) \<and> winner_idx g \<noteq> None
      \<and> ticks_diff now (win_ts g) \<ge> TIMEOUT_S * 1000)"

definition handle_timeout :: "int \<Rightarrow> game \<Rightarrow> hw \<Rightarrow> (exn + unit) \<times> game \<times> hw" where
  "handle_timeout now g h =
     (if timeout_due now g then reset_round g h else (Inr (), g, h))"

text \<open>
  One pass: \<open>now_r\<close> and \<open>now_t\<close> are the clock readings of the reset block and of
  the timeout block.
\<close>

definition loop_iter :: "int \<Rightarrow> (nat \<Rightarrow> int) \<Rightarrow> int \<Rightarrow> game \<Rightarrow> hw \<Rightarrow> ((exn + unit) \<times> game \<times> hw) option" where
  "loop_iter now_r btnR now_t g h =
     (case handle_reset now_r btnR g h of
        None \<Rightarrow> None
      | Some (Inl e, g', h') \<Rightarrow> Some (Inl e, g', h')
      | Some (Inr _, g', h') \<Rightarrow>
          (case handle_timeout now_t g' h' of
             (Inl e, g'', h'') \<Rightarrow> Some (Inl e, g'', h'')
           | (Inr _, g'', h'') \<Rightarrow>
               (case sleep_ms 10 h'' of (r, h''') \<Rightarrow> Some (r, g'', h'''))))"

text \<open>\<open>BuzzerGame.__init__\<close>, up to the registration of the edge handlers.\<close>

definition BuzzerGame_init :: "game io" where
  "BuzzerGame_init h =
     (case I2cLcd_init LCD_ADDR LCD_COLS LCD_ROWS h of
        (Inl e, h') \<Rightarrow> (Inl e, h')
      | (Inr l, h') \<Rightarrow>
          (case Buzzer_init VOLUME_DUTY h' of
             (Inl e, h'') \<Rightarrow> (Inl e, h'')
           | (Inr _, h'') \<Rightarrow>
               (let g = leds_all_off
                      \<lparr>lcd = l, leds = map (\<lambda>p. 0) LED_PINS,
                       round_open = True, winner_idx = None, win_ts = 0,
                       last_edge = replicate (length BTN_PINS) 0, last_r = 0,
                       reset_requested = False, last_reset_handled = 0\<rparr>
                in case seq_io [lcd_ready l, play_start_chime] h'' of
                     (Inl e, h''') \<Rightarrow> (Inl e, h''')
                   | (Inr _, h''') \<Rightarrow> (Inr g, h'''))))"

text \<open>
  The states the program passes through. Each edge handler and each pass of the loop
  is one step. A handler that raised leaves its state behind, and the steps after an
  exception of the loop are kept too, so the set is an over-approximation.
\<close>

inductive reachable :: "game \<Rightarrow> hw \<Rightarrow> bool" where
  boot: "BuzzerGame_init h0 = (Inr g, h) \<Longrightarrow> reachable g h"
| press: "reachable g h \<Longrightarrow> idx < length BTN_PINS \<Longrightarrow>
          irq_btn idx now now' g h = (r, g', h') \<Longrightarrow> reachable g' h'"
| reset_edge: "reachable g h \<Longrightarrow> reachable (irq_r now g) h"
| poll: "reachable g h \<Longrightarrow> loop_iter now_r btnR now_t g h = Some (r, g', h') \<Longrightarrow>
         reachable g' h'"

section \<open>Specification vocabulary\<close>

text \<open>The state of the devices at power-on, with no exception scheduled.\<close>

definition power_on :: hw where
  "power_on = \<lparr>trace = [], duty = 0, pfreq = 0, volume = 0, faults = []\<rparr>"

text \<open>
  \<open>emits m evs\<close>: whenever no exception is scheduled, the statement \<open>m\<close> returns
  normally, adds exactly the device calls \<open>evs\<close> to the trace and changes nothing else.
\<close>

definition emits :: "unit io \<Rightarrow> event list \<Rightarrow> bool" where
  "emits m evs = (\<forall>h. faults h = [] \<longrightarrow> m h = (Inr (), h\<lparr>trace := trace h @ evs\<rparr>))"

text \<open>
  The display protocol in the words of the specification. A strobe pulse presents the
  nibble \<open>n\<close> on the upper four bus lines with the enable line high, then low, the
  backlight line held high throughout; a byte is its high nibble, then its low nibble.
\<close>

definition strobe_events :: "int \<Rightarrow> int \<Rightarrow> bool \<Rightarrow> event list" where
  "strobe_events a n rs =
     [I2cWrite a (16 * n + (if rs then MASK_RS else 0) + MASK_E + MASK_BL), SleepUs 1,
      I2cWrite a (16 * n + (if rs then MASK_RS else 0) + MASK_BL), SleepUs 50]"

definition byte_events :: "int \<Rightarrow> int \<Rightarrow> bool \<Rightarrow> event list" where
  "byte_events a v rs = strobe_events a (v div 16 mod 16) rs @ strobe_events a (v mod 16) rs"

definition command_events :: "int \<Rightarrow> int \<Rightarrow> event list" where
  "command_events a c =
     byte_events a c False @ (if c = 0x01 \<or> c = 0x02 then [SleepMs 2] else [])"

definition init_events :: "int \<Rightarrow> event list" where
  "init_events a =
     [I2cWrite a MASK_BL, SleepMs 50]
     @ strobe_events a 0x03 False @ [SleepMs 5]
     @ strobe_events a 0x03 False @ [SleepUs 150]
     @ strobe_events a 0x03 False
     @ strobe_events a 0x02 False
     @ command_events a 0x28
     @ command_events a 0x08
     @ command_events a 0x01 @ [SleepMs 2]
     @ command_events a 0x06
     @ command_events a 0x0C"

definition text_events :: "int \<Rightarrow> string \<Rightarrow> event list" where
  "text_events a s = concat (map (\<lambda>c. byte_events a (of_char c) True) s)"

definition ready_events :: "int \<Rightarrow> event list" where
  "ready_events a =
     command_events a 0x01
     @ command_events a 0x80 @ text_events a (center ''READY'' LCD_COLS)
     @ command_events a 0xC0 @ text_events a (center ''Press a button'' LCD_COLS)"

definition winner_events :: "int \<Rightarrow> string \<Rightarrow> event list" where
  "winner_events a name =
     command_events a 0x01
     @ command_events a 0x80 @ text_events a (center (name @ '' WINS!'') LCD_COLS)
     @ command_events a 0xC0 @ text_events a (center ''Wait/Reset to play'' LCD_COLS)"

text \<open>
  The tone generator in the words of the specification: what one entry
  \<open>(frequency, duration, gap)\<close> asks of the PWM channel at volume \<open>vol\<close>. An entry
  whose frequency is not positive is a rest.
\<close>

definition entry_events :: "int \<Rightarrow> int \<times> int \<times> int \<Rightarrow> event list" where
  "entry_events vol e =
     (case e of (f, d, g) \<Rightarrow>
        (if 0 < f then [PwmFreq f, PwmDuty vol, SleepMs d, PwmDuty 0]
         else [PwmDuty 0, SleepMs d])
        @ (if g \<noteq> 0 then [PwmDuty 0, SleepMs g] else []))"

text \<open>The duty the output is left at by a list of device calls: the one last written.\<close>

definition duty_after :: "int \<Rightarrow> event list \<Rightarrow> int" where
  "duty_after d evs = fold (\<lambda>ev d. case ev of PwmDuty v \<Rightarrow> v | _ \<Rightarrow> d) evs d"

text \<open>
  \<open>tracks vol m evs\<close>: on a buzzer of volume \<open>vol\<close> the statement \<open>m\<close> performs a
  prefix of the device calls \<open>evs\<close>, all of them when it returns normally, leaves the
  duty as last written, and returns normally when no exception is scheduled.
\<close>

definition tracks :: "int \<Rightarrow> unit io \<Rightarrow> event list \<Rightarrow> bool" where
  "tracks vol m evs =
     (\<forall>h r h'. volume h = vol \<longrightarrow> m h = (r, h') \<longrightarrow>
        volume h' = vol
        \<and> (\<exists>pre rest. evs = pre @ rest \<and> trace h' = trace h @ pre
              \<and> duty h' = duty_after (duty h) pre
              \<and> (r = Inr () \<longrightarrow> rest = []))
        \<and> (faults h = [] \<longrightarrow> r = Inr () \<and> faults h' = []))"

text \<open>The game object \<open>BuzzerGame.__init__\<close> leaves behind.\<close>

definition boot_game :: game where
  "boot_game =
     \<lparr>lcd = \<lparr>addr = LCD_ADDR, cols = LCD_COLS, rows = LCD_ROWS, bl = MASK_BL\<rparr>,
      leds = [0, 0, 0, 0, 0, 0],
      round_open = True, winner_idx = None, win_ts = 0,
      last_edge = [0, 0, 0, 0, 0, 0], last_r = 0,
      reset_requested = False, last_reset_handled = 0\<rparr>"

text \<open>
  A burst of edges on one contestant channel, handled one after the other. The result
  lists the timestamps of the edges the handler acted on, that is, those that changed
  the game object.
\<close>

fun press_burst :: "nat \<Rightarrow> int list \<Rightarrow> game \<Rightarrow> hw \<Rightarrow> int list \<times> game \<times> hw" where
  "press_burst idx [] g h = ([], g, h)"
| "press_burst idx (t # ts) g h =
     (case irq_btn idx t t g h of
        (r, g', h') \<Rightarrow>
          (case press_burst idx ts g' h' of
             (acc, g'', h'') \<Rightarrow> ((if g' \<noteq> g then [t] else []) @ acc, g'', h'')))"

text \<open>
  The edges accepted according to the rule of the claim: an edge counts when it comes
  at least the debounce window after the anchor, and then becomes the anchor.
\<close>

fun accepted_edges :: "int list \<Rightarrow> int \<Rightarrow> int list" where
  "accepted_edges [] anchor = []"
| "accepted_edges (t # ts) anchor =
     (if ticks_diff t anchor \<ge> DEBOUNCE_MS then t # accepted_edges ts t
      else accepted_edges ts anchor)"

text \<open>
  Successive passes of \<open>loop\<close>, each with its clock readings and the levels of the
  reset button; an exception ends the loop.
\<close>

fun polls :: "(int \<times> (nat \<Rightarrow> int) \<times> int) list \<Rightarrow> game \<Rightarrow> hw \<Rightarrow> ((exn + unit) \<times> game \<times> hw) option" where
  "polls [] g h = Some (Inr (), g, h)"
| "polls ((now_r, btnR, now_t) # ps) g h =
     (case loop_iter now_r btnR now_t g h of
        None \<Rightarrow> None
      | Some (Inl e, g', h') \<Rightarrow> Some (Inl e, g', h')
      | Some (Inr _, g', h') \<Rightarrow> polls ps g' h')"

text \<open>The number of resets performed so far, counted by their console message.\<close>

definition resets :: "hw \<Rightarrow> nat" where
  "resets h = length (filter (\<lambda>ev. ev = Print RESET_MSG) (trace h))"

text \<open>The invariant of the round state.\<close>

definition round_inv :: "game \<Rightarrow> bool" where
  "round_inv g = ((winner_idx g \<noteq> None) = (\<not> round_open g)
                  \<and> (\<forall>i. winner_idx g = Some i \<longrightarrow> i < length BTN_PINS))"

section \<open>Statements that emit a fixed list of device calls\<close>

lemma emits_prim: "emits (prim ev) [ev]"
  by (simp add: emits_def prim_def)

lemma emits_skip: "emits skip []"
  by (simp add: emits_def skip_def)

lemma emits_seq_Nil: "emits (seq_io []) []"
  by (simp add: emits_def)

lemma emits_seq_Cons:
  "emits m a \<Longrightarrow> emits (seq_io ms) b \<Longrightarrow> emits (seq_io (m # ms)) (a @ b)"
  by (simp add: emits_def)

lemma emits_sleep_ms: "emits (sleep_ms d) [SleepMs d]"
  by (simp add: sleep_ms_def emits_prim)

lemma emits_sleep_us: "emits (sleep_us d) [SleepUs d]"
  by (simp add: sleep_us_def emits_prim)

lemma emits_print: "emits (print s) [Print s]"
  by (simp add: emits_def print_def)

section \<open>The display driver\<close>

lemma nibble_cases:
  "0 \<le> m \<Longrightarrow> m < 16 \<Longrightarrow>
     m = 0 \<or> m = 1 \<or> m = 2 \<or> m = 3 \<or> m = 4 \<or> m = 5 \<or> m = 6 \<or> m = 7 \<or> m = 8
     \<or> m = 9 \<or> m = 10 \<or> m = 11 \<or> m = 12 \<or> m = 13 \<or> m = 14 \<or> m = (15::int)"
  by arith

lemma shift_mask: "push_bit 4 n AND 0xF0 = 16 * (n mod 16)" for n :: int
proof -
  have "push_bit 4 n AND 0xF0 = push_bit 4 n AND push_bit 4 (mask 4)"
    by (simp add: mask_eq_exp_minus_1 push_bit_eq_mult)
  also have "\<dots> = push_bit 4 (n AND mask 4)"
    by (simp add: push_bit_and)
  also have "\<dots> = 16 * (n mod 16)"
    by (simp add: push_bit_eq_mult flip: take_bit_eq_mask add: take_bit_eq_mod)
  finally show ?thesis .
qed

lemma low_mask: "n AND 0x0F = n mod 16" for n :: int
proof -
  have "n AND 0x0F = n AND mask 4"
    by (simp add: mask_eq_exp_minus_1)
  then show ?thesis
    by (simp flip: take_bit_eq_mask add: take_bit_eq_mod)
qed

lemma strobe_bytes:
  fixes m :: int
  assumes "0 \<le> m" "m < 16"
  shows "(16 * m OR 4) OR 8 = 16 * m + 12"
    and "(16 * m AND NOT 4) OR 8 = 16 * m + 8"
    and "((16 * m OR 1) OR 4) OR 8 = 16 * m + 13"
    and "((16 * m OR 1) AND NOT 4) OR 8 = 16 * m + 9"
  using nibble_cases [OF assms] by (elim disjE; simp)+

lemma emits_write_byte:
  "0 \<le> v OR bl l \<Longrightarrow> v OR bl l < 256 \<Longrightarrow>
     emits (write_byte l v) [I2cWrite (addr l) (v OR bl l)]"
  using emits_prim by (simp add: write_byte_def emits_def)

lemma emits_send_nibble:
  assumes "bl l = MASK_BL"
  shows "emits (send_nibble l n rs) (strobe_events (addr l) (n mod 16) rs)"
proof -
  have m: "0 \<le> n mod 16" "n mod 16 < 16"
    by simp_all
  note sb = strobe_bytes [OF m]
  show ?thesis
    unfolding send_nibble_def pulse_e_def Let_def shift_mask strobe_events_def sleep_us_def
    using assms sb m
    by (auto simp add: emits_def write_byte_def prim_def MASK_E_def MASK_BL_def MASK_RS_def)
qed

lemma emits_send_byte:
  assumes "bl l = MASK_BL"
  shows "emits (send_byte l v rs) (byte_events (addr l) v rs)"
proof -
  have "emits (seq_io [send_nibble l (drop_bit 4 v) rs, send_nibble l (v AND 0x0F) rs])
          (strobe_events (addr l) (drop_bit 4 v mod 16) rs
           @ strobe_events (addr l) ((v AND 0x0F) mod 16) rs @ [])"
    by (intro emits_seq_Cons emits_seq_Nil emits_send_nibble assms)
  then show ?thesis
    by (simp add: send_byte_def byte_events_def low_mask drop_bit_eq_div)
qed

lemma emits_command:
  assumes "bl l = MASK_BL"
  shows "emits (command l c) (command_events (addr l) c)"
proof -
  have tail: "emits (if c = 0x01 \<or> c = 0x02 then sleep_ms 2 else skip)
                (if c = 0x01 \<or> c = 0x02 then [SleepMs 2] else [])"
    by (simp add: emits_sleep_ms emits_skip)
  have "emits (seq_io [send_byte l c False, if c = 0x01 \<or> c = 0x02 then sleep_ms 2 else skip])
          (byte_events (addr l) c False
           @ (if c = 0x01 \<or> c = 0x02 then [SleepMs 2] else []) @ [])"
    by (intro emits_seq_Cons emits_seq_Nil emits_send_byte assms tail)
  then show ?thesis
    by (simp add: command_def command_events_def)
qed

lemma I2cLcd_init_events:
  assumes "faults h = []"
  shows "I2cLcd_init a c r h =
           (Inr \<lparr>addr = a, cols = c, rows = r, bl = MASK_BL\<rparr>,
            h\<lparr>trace := trace h @ init_events a\<rparr>)"
proof -
  define l where "l = \<lparr>addr = a, cols = c, rows = r, bl = MASK_BL\<rparr>"
  have bl: "bl l = MASK_BL" and ad: "addr l = a"
    by (simp_all add: l_def)
  have w0: "emits (write_byte l 0) [I2cWrite a MASK_BL]"
    using emits_write_byte [of 0 l] by (simp add: bl ad MASK_BL_def)
  have n3: "emits (send_nibble l 0x03 False) (strobe_events a 0x03 False)"
   and n2: "emits (send_nibble l 0x02 False) (strobe_events a 0x02 False)"
    using emits_send_nibble [OF bl, of 3 False] emits_send_nibble [OF bl, of 2 False]
    by (simp_all add: ad)
  note cmd = emits_command [OF bl, unfolded ad]
  have "emits (seq_io
           [write_byte l 0, sleep_ms 50,
            send_nibble l 0x03 False, sleep_ms 5,
            send_nibble l 0x03 False, sleep_us 150,
            send_nibble l 0x03 False, send_nibble l 0x02 False,
            command l 0x28, command l 0x08, command l 0x01, sleep_ms 2,
            command l 0x06, command l 0x0C])
          ([I2cWrite a MASK_BL] @ [SleepMs 50] @ strobe_events a 0x03 False @ [SleepMs 5]
           @ strobe_events a 0x03 False @ [SleepUs 150] @ strobe_events a 0x03 False
           @ strobe_events a 0x02 False @ command_events a 0x28 @ command_events a 0x08
           @ command_events a 0x01 @ [SleepMs 2] @ command_events a 0x06
           @ command_events a 0x0C @ [])"
    by (intro emits_seq_Cons emits_seq_Nil w0 n3 n2 cmd emits_sleep_ms emits_sleep_us)
  then show ?thesis
    using assms unfolding I2cLcd_init_def Let_def l_def [symmetric]
    by (simp add: emits_def init_events_def)
qed

text \<open>
  Claim C8. With no bus fault, the constructor of the display driver issues exactly
  the power-on write and 50 ms settle delay, three wake pulses of nibble 0x03 (5 ms
  after the first, 150 us after the second), the mode-switch pulse of nibble 0x02,
  function-set 0x28, display-off 0x08, clear 0x01 with its completion delay,
  entry-mode-set 0x06 and display-on 0x0C, in this order. On the resulting driver
  every command and every data byte goes out as two strobe pulses, high nibble first,
  and a command 0x01 (clear) or 0x02 (home) is followed by a further 2 ms delay.
\<close>

theorem lcd_init_and_byte_protocol:
  assumes "faults h = []"
  shows "\<exists>l h'. I2cLcd_init a c r h = (Inr l, h')
           \<and> trace h' = trace h @ init_events a
           \<and> (\<forall>v rs k. faults k = [] \<longrightarrow>
                 send_byte l v rs k = (Inr (), k\<lparr>trace := trace k @ byte_events a v rs\<rparr>))
           \<and> (\<forall>ch k. faults k = [] \<longrightarrow>
                 write_char l ch k = (Inr (), k\<lparr>trace := trace k @ byte_events a ch True\<rparr>))
           \<and> (\<forall>cmd k. faults k = [] \<longrightarrow>
                 command l cmd k =
                   (Inr (), k\<lparr>trace := trace k @ byte_events a cmd False
                                   @ (if cmd = 0x01 \<or> cmd = 0x02 then [SleepMs 2] else [])\<rparr>))"
proof -
  define l where "l = \<lparr>addr = a, cols = c, rows = r, bl = MASK_BL\<rparr>"
  have bl: "bl l = MASK_BL" and ad: "addr l = a"
    by (simp_all add: l_def)
  have init: "I2cLcd_init a c r h = (Inr l, h\<lparr>trace := trace h @ init_events a\<rparr>)"
    using I2cLcd_init_events [OF assms] by (simp add: l_def)
  have byte: "send_byte l v rs k = (Inr (), k\<lparr>trace := trace k @ byte_events a v rs\<rparr>)"
    if "faults k = []" for v rs k
    using emits_send_byte [OF bl, of v rs] that by (simp add: emits_def ad)
  have cmd: "command l cmd k =
               (Inr (), k\<lparr>trace := trace k @ byte_events a cmd False
                               @ (if cmd = 0x01 \<or> cmd = 0x02 then [SleepMs 2] else [])\<rparr>)"
    if "faults k = []" for cmd k
    using emits_command [OF bl, of cmd] that by (simp add: emits_def ad command_events_def)
  show ?thesis
    using init byte cmd by (simp add: write_char_def)
qed

theorem lcd_init_and_byte_protocol_witness:
  "faults power_on = []
   \<and> (\<exists>l h'. I2cLcd_init 0x27 16 2 power_on = (Inr l, h')
         \<and> trace h' = init_events 0x27
         \<and> send_byte l 0x41 True power_on
             = (Inr (), power_on\<lparr>trace := byte_events 0x27 0x41 True\<rparr>)
         \<and> command l 0x01 power_on
             = (Inr (), power_on\<lparr>trace := byte_events 0x27 0x01 False @ [SleepMs 2]\<rparr>))"
proof -
  have f: "faults power_on = []"
    by (simp add: power_on_def)
  have t: "trace power_on = []"
    by (simp add: power_on_def)
  from lcd_init_and_byte_protocol [OF f, of "0x27" 16 2] obtain l h' where
    "I2cLcd_init 0x27 16 2 power_on = (Inr l, h')"
    "trace h' = trace power_on @ init_events 0x27"
    "\<forall>v rs k. faults k = [] \<longrightarrow>
       send_byte l v rs k = (Inr (), k\<lparr>trace := trace k @ byte_events 0x27 v rs\<rparr>)"
    "\<forall>cmd k. faults k = [] \<longrightarrow>
       command l cmd k =
         (Inr (), k\<lparr>trace := trace k @ byte_events 0x27 cmd False
                         @ (if cmd = 0x01 \<or> cmd = 0x02 then [SleepMs 2] else [])\<rparr>)"
    by blast
  then show ?thesis
    using f t by auto
qed

section \<open>Label formatting\<close>

text \<open>
  Claim C9. For every text and every display width (a column count, so not
  negative), \<open>center\<close> returns exactly \<open>width\<close> characters: the first \<open>width\<close>
  characters of a text that is at least that long, and otherwise the text between
  \<open>(width - len) div 2\<close> spaces on the left and the remaining spaces on the right.
\<close>

theorem center_exact_width:
  "0 \<le> width \<Longrightarrow>
     length (center text width) = nat width
     \<and> (width \<le> int (length text) \<longrightarrow> center text width = take (nat width) text)
     \<and> (int (length text) < width \<longrightarrow>
          (\<exists>l r. center text width = replicate l CHR '' '' @ text @ replicate r CHR '' ''
                 \<and> l = nat ((width - int (length text)) div 2)
                 \<and> l + length text + r = nat width))"
  unfolding center_def slice_to_def Let_def by (simp; linarith)

theorem center_exact_width_witness:
  "(0::int) \<le> 16
   \<and> length (center ''abcdefghijklmnopqrst'' 16) = 16
   \<and> center ''abcdefghijklmnopqrst'' 16 = ''abcdefghijklmnop''
   \<and> center ''READY'' 16 = ''     READY      ''"
proof -
  have a: "center ''abcdefghijklmnopqrst'' 16 = ''abcdefghijklmnop''"
    by code_simp
  have r: "center ''READY'' 16 = ''     READY      ''"
    by code_simp
  show ?thesis
    using center_exact_width [of 16 "''abcdefghijklmnopqrst''"] a r by simp
qed

section \<open>The tone generator\<close>

lemma duty_after_append: "duty_after d (a @ b) = duty_after (duty_after d a) b"
  by (simp add: duty_after_def)

lemma tracks_skip: "tracks vol skip []"
  by (simp add: tracks_def skip_def duty_after_def)

lemma tracks_sleep_ms: "tracks vol (sleep_ms d) [SleepMs d]"
  by (auto simp add: tracks_def sleep_ms_def prim_def duty_after_def
      split: list.splits if_splits)

lemma tracks_pwm_freq: "tracks vol (pwm_freq f) [PwmFreq f]"
  by (auto simp add: tracks_def pwm_freq_def prim_def duty_after_def
      split: list.splits if_splits)

lemma tracks_pwm_duty: "tracks vol (pwm_duty_u16 d) [PwmDuty d]"
  by (auto simp add: tracks_def pwm_duty_u16_def prim_def duty_after_def
      split: list.splits if_splits)

lemma tracks_seq_Nil: "tracks vol (seq_io []) []"
  by (simp add: tracks_def duty_after_def)

text \<open>Two statements in sequence perform the concatenation of their device calls.\<close>

lemma tracks_then:
  assumes m: "tracks vol m a" and n: "tracks vol n b"
    and eq: "\<And>h. k h = (case m h of (Inl e, h') \<Rightarrow> (Inl e, h') | (Inr _, h') \<Rightarrow> n h')"
  shows "tracks vol k (a @ b)"
  unfolding tracks_def
proof (intro allI impI)
  fix h r h'
  assume v: "volume h = vol" and run: "k h = (r, h')"
  obtain r1 h1 where m1: "m h = (r1, h1)"
    by (cases "m h")
  from m v m1 have v1: "volume h1 = vol"
    and ex1: "\<exists>pre rest. a = pre @ rest \<and> trace h1 = trace h @ pre
              \<and> duty h1 = duty_after (duty h) pre \<and> (r1 = Inr () \<longrightarrow> rest = [])"
    and f1: "faults h = [] \<longrightarrow> r1 = Inr () \<and> faults h1 = []"
    unfolding tracks_def by blast+
  from ex1 obtain d1 rest1 where a: "a = d1 @ rest1" and t1: "trace h1 = trace h @ d1"
    and du1: "duty h1 = duty_after (duty h) d1" and c1: "r1 = Inr () \<longrightarrow> rest1 = []"
    by blast
  show "volume h' = vol
        \<and> (\<exists>pre rest. a @ b = pre @ rest \<and> trace h' = trace h @ pre
              \<and> duty h' = duty_after (duty h) pre \<and> (r = Inr () \<longrightarrow> rest = []))
        \<and> (faults h = [] \<longrightarrow> r = Inr () \<and> faults h' = [])"
  proof (cases r1)
    case (Inl e)
    with run eq [of h] m1 have "r = Inl e" "h' = h1"
      by simp_all
    with v1 a t1 du1 f1 Inl show ?thesis
      by auto
  next
    case (Inr u)
    with run eq [of h] m1 have n2: "n h1 = (r, h')"
      by simp
    from n v1 n2 have v2: "volume h' = vol"
      and ex2: "\<exists>pre rest. b = pre @ rest \<and> trace h' = trace h1 @ pre
              \<and> duty h' = duty_after (duty h1) pre \<and> (r = Inr () \<longrightarrow> rest = [])"
      and f2: "faults h1 = [] \<longrightarrow> r = Inr () \<and> faults h' = []"
      unfolding tracks_def by blast+
    from ex2 obtain d2 rest2 where b: "b = d2 @ rest2" and t2: "trace h' = trace h1 @ d2"
      and du2: "duty h' = duty_after (duty h1) d2" and c2: "r = Inr () \<longrightarrow> rest2 = []"
      by blast
    from c1 Inr have r1e: "rest1 = []"
      by simp
    have "a @ b = (d1 @ d2) @ rest2"
      using a b r1e by simp
    moreover have "trace h' = trace h @ (d1 @ d2)"
      using t1 t2 by simp
    moreover have "duty h' = duty_after (duty h) (d1 @ d2)"
      using du1 du2 by (simp add: duty_after_append)
    ultimately show ?thesis
      using v2 c2 f1 f2 by blast
  qed
qed

lemma tracks_seq_Cons:
  "tracks vol m a \<Longrightarrow> tracks vol (seq_io ms) b \<Longrightarrow> tracks vol (seq_io (m # ms)) (a @ b)"
  by (rule tracks_then [where m = m and n = "seq_io ms"]) simp_all

lemma tracks_cong:
  "tracks vol m evs \<Longrightarrow> (\<And>h. volume h = vol \<Longrightarrow> k h = m h) \<Longrightarrow> tracks vol k evs"
  unfolding tracks_def by metis

lemma tracks_silence: "tracks vol (silence ms) [PwmDuty 0, SleepMs ms]"
proof -
  have "tracks vol (seq_io [pwm_duty_u16 0, sleep_ms ms]) ([PwmDuty 0] @ [SleepMs ms] @ [])"
    by (intro tracks_seq_Cons tracks_seq_Nil tracks_pwm_duty tracks_sleep_ms)
  then show ?thesis
    by (simp add: silence_def)
qed

lemma tracks_tone:
  "tracks vol (tone f d)
     (if 0 < f then [PwmFreq f, PwmDuty vol, SleepMs d, PwmDuty 0] else [PwmDuty 0, SleepMs d])"
proof (cases "0 < f")
  case True
  have "tracks vol (seq_io [pwm_freq f, pwm_duty_u16 vol, sleep_ms d, pwm_duty_u16 0])
          ([PwmFreq f] @ [PwmDuty vol] @ [SleepMs d] @ [PwmDuty 0] @ [])"
    by (intro tracks_seq_Cons tracks_seq_Nil tracks_pwm_duty tracks_sleep_ms tracks_pwm_freq)
  then show ?thesis
    using True by (auto intro: tracks_cong simp add: tone_def)
next
  case False
  then show ?thesis
    using tracks_silence [of vol d] by (auto intro: tracks_cong simp add: tone_def)
qed

lemma tracks_entry:
  "tracks vol (seq_io [tone f d, if g \<noteq> 0 then silence g else skip])
     (entry_events vol (f, d, g))"
proof -
  have gap: "tracks vol (if g \<noteq> 0 then silence g else skip)
               (if g \<noteq> 0 then [PwmDuty 0, SleepMs g] else [])"
    by (simp add: tracks_silence tracks_skip)
  have "tracks vol (seq_io [tone f d, if g \<noteq> 0 then silence g else skip])
          ((if 0 < f then [PwmFreq f, PwmDuty vol, SleepMs d, PwmDuty 0]
            else [PwmDuty 0, SleepMs d])
           @ (if g \<noteq> 0 then [PwmDuty 0, SleepMs g] else []) @ [])"
    by (intro tracks_seq_Cons tracks_seq_Nil tracks_tone gap)
  then show ?thesis
    by (simp add: entry_events_def)
qed

lemma tracks_play: "tracks vol (play seq) (concat (map (entry_events vol) seq))"
proof (induction seq)
  case Nil
  show ?case
    by (simp add: tracks_def duty_after_def)
next
  case (Cons e seq)
  obtain f d g where e: "e = (f, d, g)"
    by (cases e)
  show ?case
    unfolding e list.map concat.simps
    by (rule tracks_then [OF tracks_entry Cons.IH]) simp
qed

lemma duty_after_entry: "duty_after d0 (entry_events vol e) = 0"
  by (cases e) (simp add: entry_events_def duty_after_def)

lemma duty_after_entries:
  "duty_after d0 (concat (map (entry_events vol) seq)) = (if seq = [] then d0 else 0)"
proof (induction seq arbitrary: d0)
  case Nil
  show ?case
    by (simp add: duty_after_def)
next
  case (Cons e seq)
  then show ?case
    by (simp add: duty_after_append duty_after_entry)
qed

text \<open>
  Claim C7, as the code has it. \<open>play\<close> works through the entries in order: an entry
  of positive frequency sets the frequency, drives the output at the configured volume
  for the duration and silences it; an entry whose frequency is not positive is a rest
  of that duration; a nonzero gap follows as silence. Whatever happens, the device calls
  made are a prefix of that list and the duty is the one last written. A normal return
  has made all the calls and leaves the duty at zero (for an empty sequence: as it
  was). With no exception scheduled the return is normal. There is no clean-up on the
  way out: an exception leaves the duty as it stood when it was raised.
\<close>

theorem play_in_order_silent_on_return:
  assumes "play seq h = (r, h')"
  shows "\<exists>pre rest.
           concat (map (entry_events (volume h)) seq) = pre @ rest
           \<and> trace h' = trace h @ pre
           \<and> duty h' = duty_after (duty h) pre
           \<and> (r = Inr () \<longrightarrow> rest = [] \<and> duty h' = (if seq = [] then duty h else 0))
           \<and> (faults h = [] \<longrightarrow> r = Inr ())"
proof -
  from tracks_play [of "volume h" seq] assms
  obtain pre rest where split: "concat (map (entry_events (volume h)) seq) = pre @ rest"
    and t: "trace h' = trace h @ pre"
    and d: "duty h' = duty_after (duty h) pre"
    and c: "r = Inr () \<longrightarrow> rest = []"
    and f: "faults h = [] \<longrightarrow> r = Inr () \<and> faults h' = []"
    unfolding tracks_def by blast
  have "duty h' = (if seq = [] then duty h else 0)" if "r = Inr ()"
  proof -
    from c that split have "pre = concat (map (entry_events (volume h)) seq)"
      by simp
    with d show ?thesis
      by (simp only: duty_after_entries)
  qed
  with split t d c f show ?thesis
    by blast
qed

theorem play_in_order_silent_on_return_witness:
  "play START_CHIME (power_on\<lparr>volume := 32768\<rparr>)
     = (Inr (), power_on\<lparr>volume := 32768, pfreq := 784,
                  trace := [PwmFreq 523, PwmDuty 32768, SleepMs 90, PwmDuty 0,
                            PwmDuty 0, SleepMs 10,
                            PwmFreq 659, PwmDuty 32768, SleepMs 90, PwmDuty 0,
                            PwmDuty 0, SleepMs 10,
                            PwmFreq 784, PwmDuty 32768, SleepMs 120, PwmDuty 0]\<rparr>)
   \<and> (\<exists>pre rest.
         concat (map (entry_events 32768) START_CHIME) = pre @ rest
         \<and> pre = [PwmFreq 523, PwmDuty 32768, SleepMs 90, PwmDuty 0,
                   PwmDuty 0, SleepMs 10,
                   PwmFreq 659, PwmDuty 32768, SleepMs 90, PwmDuty 0,
                   PwmDuty 0, SleepMs 10,
                   PwmFreq 784, PwmDuty 32768, SleepMs 120, PwmDuty 0]
         \<and> rest = [])"
proof -
  have run: "play START_CHIME (power_on\<lparr>volume := 32768\<rparr>)
     = (Inr (), power_on\<lparr>volume := 32768, pfreq := 784,
                  trace := [PwmFreq 523, PwmDuty 32768, SleepMs 90, PwmDuty 0,
                            PwmDuty 0, SleepMs 10,
                            PwmFreq 659, PwmDuty 32768, SleepMs 90, PwmDuty 0,
                            PwmDuty 0, SleepMs 10,
                            PwmFreq 784, PwmDuty 32768, SleepMs 120, PwmDuty 0]\<rparr>)"
    by (simp add: START_CHIME_def C5_def E5_def G5_def power_on_def tone_def silence_def
        pwm_duty_u16_def pwm_freq_def sleep_ms_def prim_def skip_def)
  from play_in_order_silent_on_return [OF run]
  show ?thesis
    using run by (auto simp add: power_on_def)
qed

text \<open>
  The claim as stated fails twice on one run. The first entry has frequency 0 and
  never drives the output at the volume, and the delay of the second entry raises while
  its tone sounds: \<open>play\<close> hands the exception on with the duty still at 32768.
\<close>

theorem play_exception_leaves_tone_on:
  "play [(0, 50, 0), (523, 90, 10)]
        (power_on\<lparr>volume := 32768, faults := [(4, KeyboardInterrupt)]\<rparr>)
     = (Inl KeyboardInterrupt,
        power_on\<lparr>volume := 32768, pfreq := 523, duty := 32768,
                  trace := [PwmDuty 0, SleepMs 50, PwmFreq 523, PwmDuty 32768]\<rparr>)"
  by (simp add: power_on_def tone_def silence_def pwm_duty_u16_def pwm_freq_def
      sleep_ms_def prim_def skip_def)

section \<open>The round state machine\<close>

lemma declare_winner_game:
  "declare_winner idx now g h = (r, g', h') \<Longrightarrow>
     g' = g\<lparr>round_open := False, winner_idx := Some idx, win_ts := now,
            leds := map (\<lambda>(i, led). if i = idx then led_on led else led_off led)
                      (enumerate 0 (leds g))\<rparr>"
  by (auto simp add: declare_winner_def Let_def split: prod.splits sum.splits if_splits)

lemma reset_round_game:
  "reset_round g h = (r, g', h') \<Longrightarrow>
     g' = g\<lparr>round_open := True, winner_idx := None, leds := map led_off (leds g)\<rparr>"
  by (auto simp add: reset_round_def leds_all_off_def Let_def split: prod.splits)

lemma irq_btn_bounce:
  "idx < length (last_edge g) \<Longrightarrow> bounce now (last_edge g ! idx) \<Longrightarrow>
     irq_btn idx now now' g h = (Inr (), g, h)"
  by (simp add: irq_btn_def)

lemma irq_btn_closed:
  "idx < length (last_edge g) \<Longrightarrow> \<not> bounce now (last_edge g ! idx) \<Longrightarrow>
     \<not> round_open g \<Longrightarrow>
     irq_btn idx now now' g h = (Inr (), g\<lparr>last_edge := (last_edge g)[idx := now]\<rparr>, h)"
  by (simp add: irq_btn_def Let_def)

lemma irq_btn_open:
  "idx < length (last_edge g) \<Longrightarrow> \<not> bounce now (last_edge g ! idx) \<Longrightarrow>
     round_open g \<Longrightarrow>
     irq_btn idx now now' g h
       = declare_winner idx now' (g\<lparr>last_edge := (last_edge g)[idx := now]\<rparr>) h"
  by (simp add: irq_btn_def Let_def)

lemma handle_reset_game:
  "handle_reset now btnR g h = Some (r, g', h') \<Longrightarrow>
     g' = g \<or> g' = g\<lparr>last_reset_handled := now, reset_requested := False,
                       round_open := True, winner_idx := None,
                       leds := map led_off (leds g)\<rparr>"
  by (auto simp add: handle_reset_def split: if_splits option.splits prod.splits sum.splits
      dest!: reset_round_game)

lemma handle_timeout_game:
  "handle_timeout now g h = (r, g', h') \<Longrightarrow>
     g' = g \<or> g' = g\<lparr>round_open := True, winner_idx := None, leds := map led_off (leds g)\<rparr>"
  by (auto simp add: handle_timeout_def split: if_splits dest!: reset_round_game)

text \<open>What a pass of the loop can do to the game object: reset it, at most.\<close>

lemma loop_iter_game:
  assumes "loop_iter now_r btnR now_t g h = Some (r, g', h')"
  shows "\<exists>g1. (g1 = g \<or> g1 = g\<lparr>last_reset_handled := now_r, reset_requested := False,
                       round_open := True, winner_idx := None,
                       leds := map led_off (leds g)\<rparr>)
            \<and> (g' = g1 \<or> g' = g1\<lparr>round_open := True, winner_idx := None,
                                  leds := map led_off (leds g1)\<rparr>)"
proof -
  from assms obtain r1 g1 h1 where hr: "handle_reset now_r btnR g h = Some (r1, g1, h1)"
    by (auto simp add: loop_iter_def split: option.splits)
  show ?thesis
  proof (cases r1)
    case (Inl e)
    with assms hr have "g' = g1"
      by (simp add: loop_iter_def)
    with handle_reset_game [OF hr] show ?thesis
      by blast
  next
    case (Inr u)
    with assms hr obtain r2 h2 where "handle_timeout now_t g1 h1 = (r2, g', h2)"
      by (auto simp add: loop_iter_def split: prod.splits sum.splits)
    from handle_timeout_game [OF this] handle_reset_game [OF hr] show ?thesis
      by blast
  qed
qed

section \<open>Display and tone effects of the game actions\<close>

lemma emits_lcd_write:
  assumes "bl l = MASK_BL"
  shows "emits (lcd_write l s) (text_events (addr l) s)"
proof -
  have "emits (seq_io (map (\<lambda>c. write_char l (of_char c)) s))
          (concat (map (\<lambda>c. byte_events (addr l) (of_char c) True) s))"
  proof (induction s)
    case Nil
    show ?case by (simp add: emits_def)
  next
    case (Cons c s)
    have wc: "emits (write_char l (of_char c)) (byte_events (addr l) (of_char c) True)"
      unfolding write_char_def by (rule emits_send_byte [OF assms])
    show ?case
      unfolding list.map concat.simps by (rule emits_seq_Cons [OF wc Cons.IH])
  qed
  then show ?thesis by (simp add: lcd_write_def text_events_def)
qed

lemma emits_set_cursor_0:
  assumes "bl l = MASK_BL"
  shows "emits (set_cursor l 0 0) (command_events (addr l) 0x80)"
    and "emits (set_cursor l 0 1) (command_events (addr l) 0xC0)"
  using emits_command [OF assms, of "0x80"] emits_command [OF assms, of "0xC0"]
  by (simp_all add: set_cursor_def)

lemma emits_lcd_ready:
  assumes "bl l = MASK_BL"
  shows "emits (lcd_ready l) (ready_events (addr l))"
proof -
  have "emits (seq_io [clear l,
             set_cursor l 0 0, lcd_write l (center ''READY'' LCD_COLS),
             set_cursor l 0 1, lcd_write l (center ''Press a button'' LCD_COLS)])
          (command_events (addr l) 0x01
           @ command_events (addr l) 0x80 @ text_events (addr l) (center ''READY'' LCD_COLS)
           @ command_events (addr l) 0xC0
           @ text_events (addr l) (center ''Press a button'' LCD_COLS) @ [])"
    unfolding clear_def
    by (intro emits_seq_Cons emits_seq_Nil emits_command emits_set_cursor_0 emits_lcd_write assms)
  then show ?thesis by (simp add: lcd_ready_def ready_events_def)
qed

lemma emits_lcd_winner:
  assumes "bl l = MASK_BL"
  shows "emits (lcd_winner l name) (winner_events (addr l) name)"
proof -
  have "emits (seq_io [clear l,
             set_cursor l 0 0, lcd_write l (center (name @ '' WINS!'') LCD_COLS),
             set_cursor l 0 1, lcd_write l (center ''Wait/Reset to play'' LCD_COLS)])
          (command_events (addr l) 0x01
           @ command_events (addr l) 0x80
           @ text_events (addr l) (center (name @ '' WINS!'') LCD_COLS)
           @ command_events (addr l) 0xC0
           @ text_events (addr l) (center ''Wait/Reset to play'' LCD_COLS) @ [])"
    unfolding clear_def
    by (intro emits_seq_Cons emits_seq_Nil emits_command emits_set_cursor_0 emits_lcd_write assms)
  then show ?thesis by (simp add: lcd_winner_def winner_events_def)
qed

text \<open>With no exception scheduled a melody plays to its end.\<close>

lemma play_ok:
  assumes "faults h = []"
  shows "\<exists>h'. play seq h = (Inr (), h')
           \<and> trace h' = trace h @ concat (map (entry_events (volume h)) seq)
           \<and> volume h' = volume h \<and> faults h' = []"
proof -
  obtain r h' where run: "play seq h = (r, h')"
    by (cases "play seq h")
  from tracks_play [of "volume h" seq] run
  have v: "volume h' = volume h"
    and ex: "\<exists>pre rest. concat (map (entry_events (volume h)) seq) = pre @ rest
               \<and> trace h' = trace h @ pre \<and> duty h' = duty_after (duty h) pre
               \<and> (r = Inr () \<longrightarrow> rest = [])"
    and ok: "faults h = [] \<longrightarrow> r = Inr () \<and> faults h' = []"
    unfolding tracks_def by blast+
  from ok assms have r: "r = Inr ()" and f: "faults h' = []"
    by simp_all
  from ex r have "trace h' = trace h @ concat (map (entry_events (volume h)) seq)"
    by auto
  with run r v f show ?thesis
    by simp
qed

lemma play_start_chime_ok:
  assumes "faults h = []"
  shows "\<exists>h'. play_start_chime h = (Inr (), h')
           \<and> trace h' = trace h @ concat (map (entry_events (volume h)) START_CHIME)
           \<and> volume h' = volume h \<and> faults h' = []"
  using play_ok [OF assms, of START_CHIME] by (auto simp add: play_start_chime_def)

lemma reset_round_ok:
  assumes f: "faults h = []" and bl: "bl (lcd g) = MASK_BL"
  shows "\<exists>h'. reset_round g h
             = (Inr (), g\<lparr>round_open := True, winner_idx := None, leds := map led_off (leds g)\<rparr>, h')
           \<and> trace h' = trace h @ ready_events (addr (lcd g)) @ [Print RESET_MSG]
                           @ concat (map (entry_events (volume h)) START_CHIME)
           \<and> volume h' = volume h \<and> faults h' = []"
proof -
  let ?h1 = "h\<lparr>trace := trace h @ ready_events (addr (lcd g))\<rparr>"
  let ?h2 = "?h1\<lparr>trace := trace ?h1 @ [Print RESET_MSG]\<rparr>"
  have r1: "lcd_ready (lcd g) h = (Inr (), ?h1)"
    using emits_lcd_ready [OF bl] f by (simp add: emits_def)
  have r2: "print RESET_MSG ?h1 = (Inr (), ?h2)"
    by (simp add: print_def)
  have "faults ?h2 = []" using f by simp
  from play_start_chime_ok [OF this] obtain h' where
    r3: "play_start_chime ?h2 = (Inr (), h')"
    and t: "trace h' = trace ?h2 @ concat (map (entry_events (volume ?h2)) START_CHIME)"
    and v: "volume h' = volume ?h2" and f': "faults h' = []"
    by blast
  have "reset_round g h
          = (Inr (), g\<lparr>round_open := True, winner_idx := None, leds := map led_off (leds g)\<rparr>, h')"
    using r1 r2 r3 by (simp add: reset_round_def leds_all_off_def Let_def)
  with t v f' show ?thesis by simp
qed

lemma declare_winner_ok:
  assumes f: "faults h = []" and bl: "bl (lcd g) = MASK_BL"
  shows "\<exists>h'. declare_winner idx now g h
             = (Inr (), g\<lparr>round_open := False, winner_idx := Some idx, win_ts := now,
                  leds := map (\<lambda>(i, led). if i = idx then led_on led else led_off led)
                      (enumerate 0 (leds g))\<rparr>, h')
           \<and> trace h' = trace h @ winner_events (addr (lcd g)) (team_name idx)
                           @ [Print (''WIN: '' @ team_name idx)]
                           @ concat (map (entry_events (volume h)) (team_melody idx))
           \<and> volume h' = volume h \<and> faults h' = []"
proof -
  let ?h1 = "h\<lparr>trace := trace h @ winner_events (addr (lcd g)) (team_name idx)\<rparr>"
  let ?h2 = "?h1\<lparr>trace := trace ?h1 @ [Print (''WIN: '' @ team_name idx)]\<rparr>"
  have r1: "lcd_winner (lcd g) (team_name idx) h = (Inr (), ?h1)"
    using emits_lcd_winner [OF bl] f by (simp add: emits_def)
  have r2: "print (''WIN: '' @ team_name idx) ?h1 = (Inr (), ?h2)"
    by (simp add: print_def)
  have "faults ?h2 = []" using f by simp
  from play_ok [OF this, of "team_melody idx"] obtain h' where
    r3: "play (team_melody idx) ?h2 = (Inr (), h')"
    and t: "trace h' = trace ?h2 @ concat (map (entry_events (volume ?h2)) (team_melody idx))"
    and v: "volume h' = volume ?h2" and f': "faults h' = []"
    by blast
  obtain r g' k where run: "declare_winner idx now g h = (r, g', k)"
    by (cases "declare_winner idx now g h")
  from declare_winner_game [OF run] have g': "g' = g\<lparr>round_open := False, winner_idx := Some idx, win_ts := now,
                  leds := map (\<lambda>(i, led). if i = idx then led_on led else led_off led)
                      (enumerate 0 (leds g))\<rparr>" .
  have "r = Inr () \<and> k = h'"
    using run r1 r2 r3 by (simp add: declare_winner_def Let_def)
  with run g' t v f' show ?thesis by simp
qed

lemma Buzzer_init_ok:
  "faults h = [] \<Longrightarrow>
     Buzzer_init vol h
       = (Inr (), h\<lparr>trace := trace h @ [PwmDuty 0], duty := 0, volume := max 0 (min 65535 vol)\<rparr>)"
  by (simp add: Buzzer_init_def pwm_duty_u16_def prim_def)

lemma boot_ok:
  assumes f: "faults h = []"
  shows "\<exists>h'. BuzzerGame_init h = (Inr boot_game, h')
           \<and> trace h' = trace h @ init_events LCD_ADDR @ [PwmDuty 0] @ ready_events LCD_ADDR
                           @ concat (map (entry_events VOLUME_DUTY) START_CHIME)
           \<and> volume h' = VOLUME_DUTY \<and> faults h' = []"
proof -
  let ?l = "\<lparr>addr = LCD_ADDR, cols = LCD_COLS, rows = LCD_ROWS, bl = MASK_BL\<rparr>"
  let ?h1 = "h\<lparr>trace := trace h @ init_events LCD_ADDR\<rparr>"
  let ?h2 = "?h1\<lparr>trace := trace ?h1 @ [PwmDuty 0], duty := 0, volume := VOLUME_DUTY\<rparr>"
  let ?h3 = "?h2\<lparr>trace := trace ?h2 @ ready_events LCD_ADDR\<rparr>"
  have r1: "I2cLcd_init LCD_ADDR LCD_COLS LCD_ROWS h = (Inr ?l, ?h1)"
    by (rule I2cLcd_init_events [OF f])
  have "faults ?h1 = []" using f by simp
  from Buzzer_init_ok [OF this, of VOLUME_DUTY]
  have r2: "Buzzer_init VOLUME_DUTY ?h1 = (Inr (), ?h2)"
    by (simp add: VOLUME_DUTY_def)
  have "emits (lcd_ready ?l) (ready_events (addr ?l))"
    by (rule emits_lcd_ready) simp
  then have r3: "lcd_ready ?l ?h2 = (Inr (), ?h3)"
    using f by (simp add: emits_def)
  have f3: "faults ?h3 = []" using f by simp
  from play_start_chime_ok [OF f3] obtain h' where
    r4: "play_start_chime ?h3 = (Inr (), h')"
    and t: "trace h' = trace ?h3 @ concat (map (entry_events (volume ?h3)) START_CHIME)"
    and v: "volume h' = volume ?h3" and f': "faults h' = []"
    by blast
  have g: "leds_all_off
                      \<lparr>lcd = ?l, leds = map (\<lambda>p. 0) LED_PINS,
                       round_open = True, winner_idx = None, win_ts = 0,
                       last_edge = replicate (length BTN_PINS) 0, last_r = 0,
                       reset_requested = False, last_reset_handled = 0\<rparr> = boot_game"
    by (simp add: boot_game_def leds_all_off_def LED_PINS_def BTN_PINS_def led_off_def
        LED_ACTIVE_HIGH_def numeral_eq_Suc)
  have "BuzzerGame_init h = (Inr boot_game, h')"
    unfolding BuzzerGame_init_def r1 using r2 r3 r4 g by (simp add: Let_def)
  with t v f' show ?thesis by simp
qed

section \<open>Clock arithmetic\<close>

text \<open>Below half a period \<open>ticks_diff\<close> is the elapsed time.\<close>

lemma ticks_diff_small:
  "0 \<le> t1 - t2 \<Longrightarrow> t1 - t2 < TICKS_PERIOD div 2 \<Longrightarrow> ticks_diff t1 t2 = t1 - t2"
  by (simp add: ticks_diff_def TICKS_PERIOD_def)

section \<open>First press wins\<close>

text \<open>
  Claim C1. A press on contestant channel \<open>idx\<close> that passes the debounce guard while
  the round is open closes the round with winner \<open>idx\<close>, lights output \<open>idx\<close> and
  turns every other output off; the same press while the round is closed leaves the
  winner and the outputs as they are. This holds whatever the display or the buzzer
  do afterwards, exceptions included.
\<close>

theorem first_press_wins:
  assumes run: "irq_btn idx now now' g h = (r, g', h')"
    and idx: "idx < length (last_edge g)"
    and led: "idx < length (leds g)"
    and acc: "\<not> bounce now (last_edge g ! idx)"
  shows "(round_open g \<longrightarrow>
            \<not> round_open g' \<and> winner_idx g' = Some idx
            \<and> length (leds g') = length (leds g)
            \<and> is_lit (leds g' ! idx)
            \<and> (\<forall>j < length (leds g'). j \<noteq> idx \<longrightarrow> \<not> is_lit (leds g' ! j)))
         \<and> (\<not> round_open g \<longrightarrow>
            \<not> round_open g' \<and> winner_idx g' = winner_idx g \<and> leds g' = leds g)"
proof (cases "round_open g")
  case True
  from run have "declare_winner idx now' (g\<lparr>last_edge := (last_edge g)[idx := now]\<rparr>) h
                   = (r, g', h')"
    by (simp add: irq_btn_open [OF idx acc True])
  from declare_winner_game [OF this] True led show ?thesis
    by (simp add: nth_enumerate_eq is_lit_def led_on_def led_off_def)
next
  case False
  with run irq_btn_closed [OF idx acc False] show ?thesis
    by auto
qed

theorem first_press_wins_witness:
  "2 < length (last_edge boot_game) \<and> 2 < length (leds boot_game)
   \<and> \<not> bounce 1000 (last_edge boot_game ! 2) \<and> round_open boot_game
   \<and> \<not> round_open (fst (snd (irq_btn 2 1000 1000 boot_game power_on)))
   \<and> winner_idx (fst (snd (irq_btn 2 1000 1000 boot_game power_on))) = Some 2
   \<and> is_lit (leds (fst (snd (irq_btn 2 1000 1000 boot_game power_on))) ! 2)
   \<and> \<not> is_lit (leds (fst (snd (irq_btn 2 1000 1000 boot_game power_on))) ! 3)"
proof -
  have a: "2 < length (last_edge boot_game)" and b: "2 < length (leds boot_game)"
    and c: "\<not> bounce 1000 (last_edge boot_game ! 2)" and d: "round_open boot_game"
    by (simp_all add: boot_game_def bounce_def ticks_diff_def TICKS_PERIOD_def DEBOUNCE_MS_def)
  have run: "irq_btn 2 1000 1000 boot_game power_on
        = (fst (irq_btn 2 1000 1000 boot_game power_on),
           fst (snd (irq_btn 2 1000 1000 boot_game power_on)),
           snd (snd (irq_btn 2 1000 1000 boot_game power_on)))"
    by simp
  from first_press_wins [OF run a b c] d a b c show ?thesis
    by (simp add: boot_game_def)
qed

section \<open>The round invariant\<close>

lemma inv_boot: "BuzzerGame_init h0 = (Inr g, h) \<Longrightarrow> round_inv g"
  by (auto simp add: BuzzerGame_init_def leds_all_off_def Let_def round_inv_def
      split: prod.splits sum.splits)

lemma inv_press:
  assumes "irq_btn idx now now' g h = (r, g', h')" "idx < length BTN_PINS" "round_inv g"
  shows "round_inv g'"
proof -
  from assms(1) have "g' = g \<or> g' = g\<lparr>last_edge := (last_edge g)[idx := now]\<rparr>
      \<or> declare_winner idx now' (g\<lparr>last_edge := (last_edge g)[idx := now]\<rparr>) h = (r, g', h')"
    by (auto simp add: irq_btn_def Let_def split: if_splits)
  with assms(2,3) show ?thesis
    by (auto simp add: round_inv_def dest!: declare_winner_game)
qed

lemma inv_poll:
  assumes "loop_iter now_r btnR now_t g h = Some (r, g', h')" "round_inv g"
  shows "round_inv g'"
  using loop_iter_game [OF assms(1)] assms(2) by (auto simp add: round_inv_def)

lemma reachable_inv: "reachable g h \<Longrightarrow> round_inv g"
proof (induction rule: reachable.induct)
  case (boot h0 g h)
  then show ?case by (rule inv_boot)
next
  case (press g h idx now now' r g' h')
  then show ?case using inv_press by blast
next
  case (reset_edge g h now)
  then show ?case by (simp add: round_inv_def irq_r_def)
next
  case (poll g h now_r btnR now_t r g' h')
  then show ?case using inv_poll by blast
qed

text \<open>
  Claim C3. In every state the program reaches (after boot, after any edge handler and
  after any pass of the loop, whether it raised or not) there is a winner exactly when
  the round is not open: an open round has no winner, and a closed round has the index
  of one of the contestant buttons as its winner.
\<close>

theorem round_state_invariant:
  "reachable g h \<Longrightarrow>
     (winner_idx g \<noteq> None) = (\<not> round_open g)
     \<and> (round_open g \<longrightarrow> winner_idx g = None)
     \<and> (\<not> round_open g \<longrightarrow> (\<exists>i < length BTN_PINS. winner_idx g = Some i))"
  using reachable_inv [of g h] by (auto simp add: round_inv_def)

lemma boot_reachable: "reachable boot_game (snd (BuzzerGame_init power_on))"
proof -
  have "faults power_on = []" by (simp add: power_on_def)
  from boot_ok [OF this] obtain h' where "BuzzerGame_init power_on = (Inr boot_game, h')"
    by blast
  then show ?thesis by (simp add: reachable.boot)
qed

theorem round_state_invariant_witness:
  "reachable boot_game (snd (BuzzerGame_init power_on))
   \<and> round_open boot_game \<and> winner_idx boot_game = None
   \<and> reachable (fst (snd (irq_btn 2 1000 1000 boot_game (snd (BuzzerGame_init power_on)))))
               (snd (snd (irq_btn 2 1000 1000 boot_game (snd (BuzzerGame_init power_on)))))
   \<and> \<not> round_open (fst (snd (irq_btn 2 1000 1000 boot_game (snd (BuzzerGame_init power_on)))))
   \<and> winner_idx (fst (snd (irq_btn 2 1000 1000 boot_game (snd (BuzzerGame_init power_on)))))
       = Some 2"
proof -
  let ?h = "snd (BuzzerGame_init power_on)"
  let ?res = "irq_btn 2 1000 1000 boot_game ?h"
  have two: "2 < length BTN_PINS" by (simp add: BTN_PINS_def)
  have r1: "reachable (fst (snd ?res)) (snd (snd ?res))"
    by (rule reachable.press [OF boot_reachable two, of 1000 1000 "fst ?res"]) simp
  have acc: "2 < length (last_edge boot_game)" "\<not> bounce 1000 (last_edge boot_game ! 2)"
    "round_open boot_game"
    by (simp_all add: boot_game_def bounce_def ticks_diff_def TICKS_PERIOD_def DEBOUNCE_MS_def)
  have "?res = declare_winner 2 1000 (boot_game\<lparr>last_edge := (last_edge boot_game)[2 := 1000]\<rparr>) ?h"
    by (rule irq_btn_open [OF acc])
  then have w: "winner_idx (fst (snd ?res)) = Some 2"
    using declare_winner_game [of 2 1000 _ ?h "fst ?res" "fst (snd ?res)" "snd (snd ?res)"]
    by simp
  from round_state_invariant [OF boot_reachable] round_state_invariant [OF r1] w boot_reachable r1
  show ?thesis by (simp add: boot_game_def)
qed

section \<open>Debounce\<close>

lemma bounce_same: "bounce t t"
  by (simp add: bounce_def ticks_diff_def TICKS_PERIOD_def DEBOUNCE_MS_def)

lemma irq_btn_last_edge:
  assumes "irq_btn idx now now' g h = (r, g', h')" "idx < length (last_edge g)"
  shows "last_edge g' = (if bounce now (last_edge g ! idx) then last_edge g
                         else (last_edge g)[idx := now])"
proof (cases "bounce now (last_edge g ! idx)")
  case True
  with assms irq_btn_bounce [OF assms(2) True] show ?thesis by simp
next
  case False
  show ?thesis
  proof (cases "round_open g")
    case True
    with assms False have "declare_winner idx now' (g\<lparr>last_edge := (last_edge g)[idx := now]\<rparr>) h = (r, g', h')"
      by (simp add: irq_btn_open)
    from declare_winner_game [OF this] False show ?thesis by simp
  next
    case closed: False
    with assms False irq_btn_closed [OF assms(2) False closed] show ?thesis by auto
  qed
qed



lemma press_burst_accepted:
  "idx < length (last_edge g) \<Longrightarrow> press_burst idx ts g h = (acc, g', h') \<Longrightarrow>
     acc = accepted_edges ts (last_edge g ! idx)
     \<and> last_edge g' ! idx = last (last_edge g ! idx # acc)"
proof (induction ts arbitrary: g h acc)
  case Nil
  then show ?case by simp
next
  case (Cons t ts)
  obtain r g1 h1 where step: "irq_btn idx t t g h = (r, g1, h1)"
    by (cases "irq_btn idx t t g h")
  obtain acc1 where rest: "press_burst idx ts g1 h1 = (acc1, g', h')"
    and acc: "acc = (if g1 \<noteq> g then [t] else []) @ acc1"
    using Cons.prems(2) step by (auto split: prod.splits)
  note le = irq_btn_last_edge [OF step Cons.prems(1)]
  from le Cons.prems(1) have len: "idx < length (last_edge g1)" by (simp split: if_splits)
  note IH = Cons.IH [OF len rest]
  show ?case
  proof (cases "bounce t (last_edge g ! idx)")
    case True
    with step irq_btn_bounce [OF Cons.prems(1) True] have "g1 = g" by simp
    with IH acc True show ?thesis by (simp add: bounce_def)
  next
    case False
    with bounce_same [of t] have "last_edge g ! idx \<noteq> t" by auto
    with le False Cons.prems(1) have "last_edge g1 \<noteq> last_edge g" and a: "last_edge g1 ! idx = t"
      by (auto simp add: list_update_same_conv)
    then have "g1 \<noteq> g" by auto
    with IH acc a False show ?thesis by (simp add: bounce_def)
  qed
qed

lemma accepted_edges_nonempty:
  "\<exists>t \<in> set ts. DEBOUNCE_MS \<le> ticks_diff t a \<Longrightarrow> accepted_edges ts a \<noteq> []"
  by (induction ts) auto

text \<open>
  Claim C10. An edge dropped by the guard changes nothing, in particular not the
  timestamp of its channel. So over any burst of edges on one channel the edges acted
  on are exactly those at least the debounce window after the last edge acted on
  (initially: after the stored timestamp), and the stored timestamp ends as the last of
  them. Consequently, when the first edge of a burst is accepted and some later edge is
  at least a window after it, at least two edges of the burst are accepted, however
  closely the edges follow one another.
\<close>

theorem debounce_anchor:
  assumes idx: "idx < length (last_edge g)"
    and run: "press_burst idx ts g h = (acc, g', h')"
  shows "(\<forall>t now'. bounce t (last_edge g ! idx) \<longrightarrow> irq_btn idx t now' g h = (Inr (), g, h))
         \<and> acc = accepted_edges ts (last_edge g ! idx)
         \<and> last_edge g' ! idx = last (last_edge g ! idx # acc)
         \<and> (\<forall>t0 rest. ts = t0 # rest \<and> DEBOUNCE_MS \<le> ticks_diff t0 (last_edge g ! idx)
               \<and> (\<exists>t \<in> set rest. DEBOUNCE_MS \<le> ticks_diff t t0)
               \<longrightarrow> 2 \<le> length acc)"
proof -
  note pa = press_burst_accepted [OF idx run]
  have burst: "2 \<le> length acc"
    if "ts = t0 # rest" "DEBOUNCE_MS \<le> ticks_diff t0 (last_edge g ! idx)"
       "\<exists>t \<in> set rest. DEBOUNCE_MS \<le> ticks_diff t t0" for t0 rest
  proof -
    from pa that(1,2) have "acc = t0 # accepted_edges rest t0" by simp
    moreover from accepted_edges_nonempty [OF that(3)] have "accepted_edges rest t0 \<noteq> []" .
    ultimately show ?thesis by (cases "accepted_edges rest t0") simp_all
  qed
  from pa burst irq_btn_bounce [OF idx] show ?thesis by blast
qed



theorem debounce_anchor_witness:
  "2 < length (last_edge (boot_game\<lparr>round_open := False, winner_idx := Some 0\<rparr>))
   \<and> ticks_diff 1050 1000 < DEBOUNCE_MS
   \<and> ticks_diff 1100 1050 < DEBOUNCE_MS
   \<and> ticks_diff 1150 1100 < DEBOUNCE_MS
   \<and> DEBOUNCE_MS \<le> ticks_diff 1150 1000
   \<and> fst (press_burst 2 [1000, 1050, 1100, 1150]
             (boot_game\<lparr>round_open := False, winner_idx := Some 0\<rparr>) power_on)
       = [1000, 1100]"
proof -
  let ?g = "boot_game\<lparr>round_open := False, winner_idx := Some 0\<rparr>"
  let ?run = "press_burst 2 [1000, 1050, 1100, 1150] ?g power_on"
  have idx: "2 < length (last_edge ?g)" and anchor: "last_edge ?g ! 2 = 0"
    by (simp_all add: boot_game_def)
  have run: "?run = (fst ?run, fst (snd ?run), snd (snd ?run))"
    by simp
  have acc: "accepted_edges [1000, 1050, 1100, 1150] 0 = [1000, 1100]"
    by (simp add: ticks_diff_def TICKS_PERIOD_def DEBOUNCE_MS_def)
  have gaps: "ticks_diff 1050 1000 < DEBOUNCE_MS" "ticks_diff 1100 1050 < DEBOUNCE_MS"
    "ticks_diff 1150 1100 < DEBOUNCE_MS"
    and span: "DEBOUNCE_MS \<le> ticks_diff 1150 1000"
    by (simp_all add: ticks_diff_def TICKS_PERIOD_def DEBOUNCE_MS_def)
  from debounce_anchor [OF idx run] have "fst ?run = accepted_edges [1000, 1050, 1100, 1150] 0"
    by (simp only: anchor)
  with idx acc gaps span show ?thesis
    by simp
qed

section \<open>Reset button\<close>

text \<open>The wait for the release ends as soon as the button is read high once.\<close>

lemma wait_release_returns:
  "btnR (j + n) \<noteq> 0 \<Longrightarrow> \<exists>res. wait_release btnR j h = Some res"
proof (induction n arbitrary: j h)
  case 0
  then show ?case by (subst wait_release.simps) simp
next
  case (Suc n)
  from Suc.prems have "btnR (Suc j + n) \<noteq> 0" by simp
  from Suc.IH [OF this] show ?case
    by (subst wait_release.simps) (auto split: prod.splits sum.splits)
qed

lemma wait_release_ok:
  "faults h = [] \<Longrightarrow> btnR (j + n) \<noteq> 0 \<Longrightarrow>
     \<exists>h1. wait_release btnR j h = Some (Inr (), h1) \<and> faults h1 = []"
proof (induction n arbitrary: j h)
  case 0
  then show ?case
    by (subst wait_release.simps) simp
next
  case (Suc n)
  let ?h1 = "h\<lparr>trace := trace h @ [SleepMs 5]\<rparr>"
  from Suc.prems have f: "faults ?h1 = []" and b: "btnR (Suc j + n) \<noteq> 0"
    by simp_all
  from Suc.IH [OF f b] Suc.prems(1) show ?case
    by (subst wait_release.simps) (simp add: sleep_ms_def prim_def)
qed

text \<open>
  Claim C6. Take any game state, open or closed. A reset edge that passes the debounce
  guard raises the request flag; when the next pass of the loop finds the cooldown of
  \<open>RESET_COOLDOWN_MS\<close> since the last handled reset over and the wait for the release
  of the button returns, that pass ends with the round open, no winner and every output
  off (and the request cleared), whether or not the display or the buzzer raise.
\<close>

theorem reset_button_reopens:
  assumes edge: "\<not> bounce t (last_r g0)"
    and cool: "RESET_COOLDOWN_MS \<le> ticks_diff now_r (last_reset_handled g0)"
    and released: "wait_release btnR 0 h = Some (Inr (), h1)"
  shows "reset_requested (irq_r t g0)
         \<and> (\<exists>r g' h'. loop_iter now_r btnR now_t (irq_r t g0) h = Some (r, g', h')
               \<and> round_open g' \<and> winner_idx g' = None
               \<and> length (leds g') = length (leds g0)
               \<and> (\<forall>j < length (leds g'). \<not> is_lit (leds g' ! j))
               \<and> \<not> reset_requested g' \<and> last_reset_handled g' = now_r)"
proof -
  let ?g = "irq_r t g0"
  let ?gq = "?g\<lparr>last_reset_handled := now_r, reset_requested := False\<rparr>"
  let ?gR = "?gq\<lparr>round_open := True, winner_idx := None, leds := map led_off (leds ?gq)\<rparr>"
  from edge have g: "?g = g0\<lparr>last_r := t, reset_requested := True\<rparr>"
    by (simp add: irq_r_def)
  obtain r1 g1 h2 where rr: "reset_round ?gq h1 = (r1, g1, h2)"
    by (cases "reset_round ?gq h1")
  from reset_round_game [OF rr] have g1: "g1 = ?gR" .
  have hr: "handle_reset now_r btnR ?g h = Some (r1, ?gR, h2)"
    using cool released rr g1 by (simp add: handle_reset_def g)
  have nt: "handle_timeout now_t ?gR h2 = (Inr (), ?gR, h2)"
    by (simp add: handle_timeout_def timeout_due_def)
  have "\<exists>r h'. loop_iter now_r btnR now_t ?g h = Some (r, ?gR, h')"
    using hr nt by (cases r1) (auto simp add: loop_iter_def split: prod.splits)
  then obtain r h' where li: "loop_iter now_r btnR now_t ?g h = Some (r, ?gR, h')"
    by blast
  have props: "round_open ?gR \<and> winner_idx ?gR = None
               \<and> length (leds ?gR) = length (leds g0)
               \<and> (\<forall>j < length (leds ?gR). \<not> is_lit (leds ?gR ! j))
               \<and> \<not> reset_requested ?gR \<and> last_reset_handled ?gR = now_r"
    by (simp add: g is_lit_def led_off_def)
  have rq: "reset_requested ?g"
    by (simp add: g)
  from li props have "\<exists>r g' h'. loop_iter now_r btnR now_t ?g h = Some (r, g', h')
               \<and> round_open g' \<and> winner_idx g' = None
               \<and> length (leds g') = length (leds g0)
               \<and> (\<forall>j < length (leds g'). \<not> is_lit (leds g' ! j))
               \<and> \<not> reset_requested g' \<and> last_reset_handled g' = now_r"
    by (intro exI [of _ r] exI [of _ ?gR] exI [of _ h']) simp
  with rq show ?thesis
    by simp
qed

theorem reset_button_reopens_witness:
  "\<not> bounce 2000 (last_r (boot_game\<lparr>round_open := False, winner_idx := Some 1, leds := [0, 1, 0, 0, 0, 0]\<rparr>))
   \<and> RESET_COOLDOWN_MS
       \<le> ticks_diff 2010 (last_reset_handled (boot_game\<lparr>round_open := False, winner_idx := Some 1, leds := [0, 1, 0, 0, 0, 0]\<rparr>))
   \<and> wait_release (\<lambda>k. if k < 3 then 0 else 1) 0 power_on
       = Some (Inr (), power_on\<lparr>trace := [SleepMs 5, SleepMs 5, SleepMs 5]\<rparr>)
   \<and> (\<exists>r g' h'.
         loop_iter 2010 (\<lambda>k. if k < 3 then 0 else 1) 2010
           (irq_r 2000 (boot_game\<lparr>round_open := False, winner_idx := Some 1, leds := [0, 1, 0, 0, 0, 0]\<rparr>)) power_on
           = Some (r, g', h')
         \<and> round_open g' \<and> winner_idx g' = None
         \<and> length (leds g') = 6
         \<and> \<not> is_lit (leds g' ! 0) \<and> \<not> is_lit (leds g' ! 1) \<and> \<not> is_lit (leds g' ! 2)
         \<and> \<not> is_lit (leds g' ! 3) \<and> \<not> is_lit (leds g' ! 4) \<and> \<not> is_lit (leds g' ! 5))"
proof -
  let ?g0 = "boot_game\<lparr>round_open := False, winner_idx := Some 1, leds := [0, 1, 0, 0, 0, 0]\<rparr>"
  have edge: "\<not> bounce 2000 (last_r ?g0)"
    and cool: "RESET_COOLDOWN_MS \<le> ticks_diff 2010 (last_reset_handled ?g0)"
    by (simp_all add: boot_game_def bounce_def ticks_diff_def TICKS_PERIOD_def
        DEBOUNCE_MS_def RESET_COOLDOWN_MS_def)
  have released: "wait_release (\<lambda>k. if k < 3 then 0 else 1) 0 power_on
       = Some (Inr (), power_on\<lparr>trace := [SleepMs 5, SleepMs 5, SleepMs 5]\<rparr>)"
    by (simp add: wait_release.simps sleep_ms_def prim_def power_on_def)
  have len: "length (leds ?g0) = 6"
    by simp
  from reset_button_reopens [OF edge cool released, of 2010]
  obtain r g' h' where
    li: "loop_iter 2010 (\<lambda>k. if k < 3 then 0 else 1) 2010 (irq_r 2000 ?g0) power_on
           = Some (r, g', h')"
    and st: "round_open g'" "winner_idx g' = None" "length (leds g') = length (leds ?g0)"
      "\<forall>j < length (leds g'). \<not> is_lit (leds g' ! j)"
    by blast
  from st len have l6: "length (leds g') = 6"
    and off: "\<not> is_lit (leds g' ! 0)" "\<not> is_lit (leds g' ! 1)" "\<not> is_lit (leds g' ! 2)"
      "\<not> is_lit (leds g' ! 3)" "\<not> is_lit (leds g' ! 4)" "\<not> is_lit (leds g' ! 5)"
    by simp_all
  with li st have "\<exists>r g' h'.
         loop_iter 2010 (\<lambda>k. if k < 3 then 0 else 1) 2010 (irq_r 2000 ?g0) power_on
           = Some (r, g', h')
         \<and> round_open g' \<and> winner_idx g' = None
         \<and> length (leds g') = 6
         \<and> \<not> is_lit (leds g' ! 0) \<and> \<not> is_lit (leds g' ! 1) \<and> \<not> is_lit (leds g' ! 2)
         \<and> \<not> is_lit (leds g' ! 3) \<and> \<not> is_lit (leds g' ! 4) \<and> \<not> is_lit (leds g' ! 5)"
    by blast
  with edge cool released show ?thesis
    by blast
qed

section \<open>Automatic reset\<close>

lemma no_print_strobe: "Print s \<notin> set (strobe_events a n rs)"
  by (simp add: strobe_events_def)

lemma no_print_byte: "Print s \<notin> set (byte_events a v rs)"
  by (simp add: byte_events_def no_print_strobe)

lemma no_print_command: "Print s \<notin> set (command_events a c)"
  by (simp add: command_events_def no_print_byte)

lemma no_print_text: "Print s \<notin> set (text_events a str)"
  by (auto simp add: text_events_def no_print_byte)

lemma no_print_ready: "Print s \<notin> set (ready_events a)"
  by (simp add: ready_events_def no_print_command no_print_text)

lemma no_print_entries: "Print s \<notin> set (concat (map (entry_events vol) seq))"
  by (auto simp add: entry_events_def split: prod.splits if_splits)

lemma filter_no_print:
  "(\<And>s. Print s \<notin> set evs) \<Longrightarrow> filter (\<lambda>ev. ev = Print m) evs = []"
  by (induction evs) auto

lemma loop_iter_idle:
  assumes "round_open g" "\<not> reset_requested g" "faults h = []"
  shows "loop_iter now_r btnR now_t g h = Some (Inr (), g, h\<lparr>trace := trace h @ [SleepMs 10]\<rparr>)"
  using assms
  by (simp add: loop_iter_def handle_reset_def handle_timeout_def timeout_due_def
      sleep_ms_def prim_def)

lemma polls_idle:
  "round_open g \<Longrightarrow> \<not> reset_requested g \<Longrightarrow> faults h = [] \<Longrightarrow>
     \<exists>h'. polls ps g h = Some (Inr (), g, h') \<and> resets h' = resets h \<and> faults h' = []"
proof (induction ps arbitrary: h)
  case Nil
  then show ?case by simp
next
  case (Cons p ps)
  obtain now_r btnR now_t where p: "p = (now_r, btnR, now_t)"
    by (cases p)
  let ?h1 = "h\<lparr>trace := trace h @ [SleepMs 10]\<rparr>"
  have "faults ?h1 = []" using Cons.prems by simp
  from Cons.IH [OF Cons.prems(1,2) this] obtain h' where
    "polls ps g ?h1 = Some (Inr (), g, h')" "resets h' = resets ?h1" "faults h' = []"
    by blast
  with loop_iter_idle [OF Cons.prems, of now_r btnR now_t] show ?case
    by (simp add: p resets_def)
qed

text \<open>
  Claim C5. Let the round be closed with a winner, no reset requested and no device
  fault. A pass of the loop that reads less than \<open>TIMEOUT_S\<close> seconds since the
  winner was declared changes nothing. A pass that reads at least \<open>TIMEOUT_S\<close>
  seconds resets the round to open, and however many passes \<open>ps\<close> follow, with
  whatever clock readings, the loop has performed exactly one reset: the round is open
  and the timeout check cannot fire again while it is.
\<close>

theorem timeout_resets_once:
  assumes closed: "\<not> round_open g" and win: "winner_idx g = Some w"
    and noreq: "\<not> reset_requested g"
    and f: "faults h = []" and bl: "bl (lcd g) = MASK_BL"
  shows "(ticks_diff now_t (win_ts g) < TIMEOUT_S * 1000 \<longrightarrow>
            (\<exists>h'. loop_iter now_r btnR now_t g h = Some (Inr (), g, h')
                   \<and> resets h' = resets h))
         \<and> (TIMEOUT_S * 1000 \<le> ticks_diff now_t (win_ts g) \<longrightarrow>
            (\<exists>g' h'. polls ((now_r, btnR, now_t) # ps) g h = Some (Inr (), g', h')
                   \<and> round_open g' \<and> winner_idx g' = None
                   \<and> (\<forall>now. \<not> timeout_due now g')
                   \<and> resets h' = resets h + 1))"
proof (intro conjI impI)
  assume early: "ticks_diff now_t (win_ts g) < TIMEOUT_S * 1000"
  then have "loop_iter now_r btnR now_t g h
               = Some (Inr (), g, h\<lparr>trace := trace h @ [SleepMs 10]\<rparr>)"
    using noreq f
    by (simp add: loop_iter_def handle_reset_def handle_timeout_def timeout_due_def
        sleep_ms_def prim_def)
  then show "\<exists>h'. loop_iter now_r btnR now_t g h = Some (Inr (), g, h') \<and> resets h' = resets h"
    by (simp add: resets_def)
next
  assume late: "TIMEOUT_S * 1000 \<le> ticks_diff now_t (win_ts g)"
  let ?gR = "g\<lparr>round_open := True, winner_idx := None, leds := map led_off (leds g)\<rparr>"
  from reset_round_ok [OF f bl] obtain h1 where
    rr: "reset_round g h = (Inr (), ?gR, h1)"
    and t1: "trace h1 = trace h @ ready_events (addr (lcd g)) @ [Print RESET_MSG]
                          @ concat (map (entry_events (volume h)) START_CHIME)"
    and f1: "faults h1 = []"
    by blast
  let ?h2 = "h1\<lparr>trace := trace h1 @ [SleepMs 10]\<rparr>"
  have due: "timeout_due now_t g"
    using closed win late by (simp add: timeout_due_def)
  have first: "loop_iter now_r btnR now_t g h = Some (Inr (), ?gR, ?h2)"
    using noreq due rr f1
    by (simp add: loop_iter_def handle_reset_def handle_timeout_def sleep_ms_def prim_def)
  have quiet: "filter (\<lambda>ev. ev = Print RESET_MSG) (ready_events (addr (lcd g))) = []"
    "filter (\<lambda>ev. ev = Print RESET_MSG)
       (concat (map (entry_events (volume h)) START_CHIME)) = []"
    by (rule filter_no_print, rule no_print_ready, rule filter_no_print, rule no_print_entries)
  have count: "resets ?h2 = resets h + 1"
    by (simp add: resets_def t1 quiet)
  have "round_open ?gR" "\<not> reset_requested ?gR" "faults ?h2 = []"
    using noreq f1 by simp_all
  from polls_idle [OF this, of ps] obtain h' where
    rest: "polls ps ?gR ?h2 = Some (Inr (), ?gR, h')" and same: "resets h' = resets ?h2"
    by blast
  have "polls ((now_r, btnR, now_t) # ps) g h = Some (Inr (), ?gR, h')"
    using first rest by simp
  moreover have "round_open ?gR \<and> winner_idx ?gR = None \<and> (\<forall>now. \<not> timeout_due now ?gR)"
    by (simp add: timeout_due_def)
  ultimately show "\<exists>g' h'. polls ((now_r, btnR, now_t) # ps) g h = Some (Inr (), g', h')
                   \<and> round_open g' \<and> winner_idx g' = None
                   \<and> (\<forall>now. \<not> timeout_due now g')
                   \<and> resets h' = resets h + 1"
    using same count by (intro exI [of _ ?gR] exI [of _ h']) simp
qed

theorem timeout_resets_once_witness:
  "\<not> round_open (boot_game\<lparr>round_open := False, winner_idx := Some 1, win_ts := 500\<rparr>)
   \<and> faults power_on = []
   \<and> TIMEOUT_S * 1000 \<le> ticks_diff 9000 500
   \<and> (\<exists>g' h'. polls [(9000, \<lambda>k. 1, 9000), (9010, \<lambda>k. 1, 9010), (9020, \<lambda>k. 1, 9020)]
                  (boot_game\<lparr>round_open := False, winner_idx := Some 1, win_ts := 500\<rparr>)
                  power_on = Some (Inr (), g', h')
         \<and> round_open g' \<and> winner_idx g' = None \<and> resets h' = 1)"
proof -
  let ?g = "boot_game\<lparr>round_open := False, winner_idx := Some 1, win_ts := 500\<rparr>"
  have closed: "\<not> round_open ?g" and win: "winner_idx ?g = Some 1"
    and noreq: "\<not> reset_requested ?g" and bl: "bl (lcd ?g) = MASK_BL"
    and ts: "win_ts ?g = 500"
    by (simp_all add: boot_game_def)
  have f: "faults power_on = []" and r0: "resets power_on = 0"
    by (simp_all add: power_on_def resets_def)
  have late: "TIMEOUT_S * 1000 \<le> ticks_diff 9000 500"
    by (simp add: ticks_diff_def TICKS_PERIOD_def TIMEOUT_S_def)
  from timeout_resets_once [OF closed win noreq f bl, of 9000 9000 "\<lambda>k. 1"
      "[(9010, \<lambda>k. 1, 9010), (9020, \<lambda>k. 1, 9020)]"] late
  have "\<exists>g' h'. polls [(9000, \<lambda>k. 1, 9000), (9010, \<lambda>k. 1, 9010), (9020, \<lambda>k. 1, 9020)]
                  ?g power_on = Some (Inr (), g', h')
         \<and> round_open g' \<and> winner_idx g' = None \<and> resets h' = 1"
    unfolding ts r0 by auto
  with closed f late show ?thesis
    by blast
qed

section \<open>Where the transition happens\<close>

text \<open>A pass of the loop never declares a winner.\<close>

lemma loop_never_declares:
  assumes "loop_iter now_r btnR now_t g h = Some (r, g', h')"
  shows "winner_idx g' = None \<or> (winner_idx g' = winner_idx g \<and> round_open g' = round_open g)"
  using loop_iter_game [OF assms] by auto

text \<open>
  Claim C2, as the code has it. There is no mailbox for presses. The edge handler of a
  contestant button records the timestamp and, when the edge passes the guard while
  the round is open, performs the whole transition itself before it returns: it closes
  the round with the winner and the winner's timestamp, lights the winner's output and
  turns every other output off, and (with no device fault)
  sends the winner screen to the display, prints the result and plays the team's
  melody. A pass of the polling loop never declares a winner: it leaves the winner as
  it is or clears it.
\<close>

theorem press_callback_does_the_transition:
  assumes idx: "idx < length (last_edge g)"
    and acc: "\<not> bounce now (last_edge g ! idx)"
    and opn: "round_open g"
    and f: "faults h = []" and bl: "bl (lcd g) = MASK_BL"
    and run: "irq_btn idx now now' g h = (r, g', h')"
  shows "r = Inr () \<and> last_edge g' ! idx = now
         \<and> \<not> round_open g' \<and> winner_idx g' = Some idx \<and> win_ts g' = now'
         \<and> length (leds g') = length (leds g)
         \<and> (\<forall>j < length (leds g'). is_lit (leds g' ! j) = (j = idx))
         \<and> trace h' = trace h @ winner_events (addr (lcd g)) (team_name idx)
                         @ [Print (''WIN: '' @ team_name idx)]
                         @ concat (map (entry_events (volume h)) (team_melody idx))
         \<and> (\<forall>now_r btnR now_t gp hp rp gp' hp'.
               loop_iter now_r btnR now_t gp hp = Some (rp, gp', hp') \<longrightarrow>
               winner_idx gp' = None
               \<or> (winner_idx gp' = winner_idx gp \<and> round_open gp' = round_open gp))"
proof -
  let ?g1 = "g\<lparr>last_edge := (last_edge g)[idx := now]\<rparr>"
  have bl1: "bl (lcd ?g1) = MASK_BL"
    using bl by simp
  from declare_winner_ok [OF f bl1, of idx now'] obtain k where
    dw: "declare_winner idx now' ?g1 h
           = (Inr (), ?g1\<lparr>round_open := False, winner_idx := Some idx, win_ts := now',
                  leds := map (\<lambda>(i, led). if i = idx then led_on led else led_off led)
                      (enumerate 0 (leds ?g1))\<rparr>, k)"
    and t: "trace k = trace h @ winner_events (addr (lcd ?g1)) (team_name idx)
                           @ [Print (''WIN: '' @ team_name idx)]
                           @ concat (map (entry_events (volume h)) (team_melody idx))"
    by blast
  from run irq_btn_open [OF idx acc opn, of now' h] dw
  have "r = Inr ()" "h' = k"
    and g': "g' = ?g1\<lparr>round_open := False, winner_idx := Some idx, win_ts := now',
                  leds := map (\<lambda>(i, led). if i = idx then led_on led else led_off led)
                      (enumerate 0 (leds ?g1))\<rparr>"
    by simp_all
  with t idx loop_never_declares show ?thesis
    by (simp add: nth_enumerate_eq is_lit_def led_on_def led_off_def)
qed


text \<open>
  The claim as stated fails on the first press after boot: the handler returns with
  the round closed, the winner's output lit, the winner screen written to the display
  over the I2C bus and the melody of team 1 played on the PWM channel.
\<close>

theorem press_callback_runs_display_and_tone:
  "irq_btn 0 1000 1000 boot_game (power_on\<lparr>volume := 32768\<rparr>)
     = (Inr (),
        boot_game\<lparr>last_edge := [1000, 0, 0, 0, 0, 0], round_open := False,
                   winner_idx := Some 0, win_ts := 1000, leds := [1, 0, 0, 0, 0, 0]\<rparr>,
        power_on\<lparr>volume := 32768, pfreq := 1047,
                  trace := winner_events 0x27 ''Team 1''
                    @ [Print ''WIN: Team 1'',
                       PwmFreq 659, PwmDuty 32768, SleepMs 120, PwmDuty 0,
                       PwmDuty 0, SleepMs 15,
                       PwmFreq 784, PwmDuty 32768, SleepMs 120, PwmDuty 0,
                       PwmDuty 0, SleepMs 15,
                       PwmFreq 1047, PwmDuty 32768, SleepMs 160, PwmDuty 0]\<rparr>)"
proof -
  let ?l = "\<lparr>addr = 0x27, cols = 16, rows = 2, bl = 8\<rparr>"
  have "emits (lcd_winner ?l ''Team 1'') (winner_events (addr ?l) ''Team 1'')"
    by (rule emits_lcd_winner) (simp add: MASK_BL_def)
  then have lw: "lcd_winner ?l ''Team 1'' h
                   = (Inr (), h\<lparr>trace := trace h @ winner_events 0x27 ''Team 1''\<rparr>)"
    if "faults h = []" for h
    using that by (simp add: emits_def)
  show ?thesis
    by (simp add: irq_btn_def boot_game_def power_on_def bounce_def ticks_diff_def
        TICKS_PERIOD_def DEBOUNCE_MS_def declare_winner_def Let_def team_name_def
        TEAM_NAMES_def team_melody_def MELODIES_def LCD_ADDR_def LCD_COLS_def LCD_ROWS_def
        MASK_BL_def lw print_def led_on_def led_off_def LED_ACTIVE_HIGH_def
        E5_def G5_def C6_def tone_def silence_def pwm_duty_u16_def pwm_freq_def
        sleep_ms_def prim_def skip_def)
qed

theorem press_callback_does_the_transition_witness:
  "0 < length (last_edge boot_game)
   \<and> \<not> bounce 1000 (last_edge boot_game ! 0)
   \<and> round_open boot_game
   \<and> faults (power_on\<lparr>volume := 32768\<rparr>) = []
   \<and> bl (lcd boot_game) = MASK_BL
   \<and> fst (irq_btn 0 1000 1001 boot_game (power_on\<lparr>volume := 32768\<rparr>)) = Inr ()
   \<and> winner_idx (fst (snd (irq_btn 0 1000 1001 boot_game (power_on\<lparr>volume := 32768\<rparr>))))
       = Some 0
   \<and> win_ts (fst (snd (irq_btn 0 1000 1001 boot_game (power_on\<lparr>volume := 32768\<rparr>))))
       = 1001
   \<and> trace (snd (snd (irq_btn 0 1000 1001 boot_game (power_on\<lparr>volume := 32768\<rparr>))))
       = winner_events 0x27 ''Team 1'' @ [Print ''WIN: Team 1'']
         @ concat (map (entry_events 32768) [(659, 120, 15), (784, 120, 15), (1047, 160, 0)])"
proof -
  let ?h = "power_on\<lparr>volume := 32768\<rparr>"
  let ?run = "irq_btn 0 1000 1001 boot_game ?h"
  have idx: "0 < length (last_edge boot_game)"
    and acc: "\<not> bounce 1000 (last_edge boot_game ! 0)"
    and opn: "round_open boot_game"
    and bl: "bl (lcd boot_game) = MASK_BL"
    and ad: "addr (lcd boot_game) = 0x27"
    by (simp_all add: boot_game_def bounce_def ticks_diff_def TICKS_PERIOD_def
        DEBOUNCE_MS_def LCD_ADDR_def)
  have f: "faults ?h = []" and tr: "trace ?h = []" and v: "volume ?h = 32768"
    by (simp_all add: power_on_def)
  have nm: "team_name 0 = ''Team 1''"
    and mel: "team_melody 0 = [(659, 120, 15), (784, 120, 15), (1047, 160, 0)]"
    by (simp_all add: team_name_def TEAM_NAMES_def team_melody_def MELODIES_def
        E5_def G5_def C6_def)
  have run: "?run = (fst ?run, fst (snd ?run), snd (snd ?run))"
    by simp
  from press_callback_does_the_transition [OF idx acc opn f bl run]
  have "fst ?run = Inr ()" "winner_idx (fst (snd ?run)) = Some 0"
    "win_ts (fst (snd ?run)) = 1001"
    "trace (snd (snd ?run))
       = winner_events 0x27 ''Team 1'' @ [Print ''WIN: Team 1'']
         @ concat (map (entry_events 32768) [(659, 120, 15), (784, 120, 15), (1047, 160, 0)])"
    unfolding tr v nm mel ad by simp_all
  with idx acc opn f bl show ?thesis
    by blast
qed

end
